theory Spec2Isabelle
  imports Main "HOL-Library.Word" "HOL-Library.AList" "HOL-Library.Sublist"
begin

unbundle bit_operations_syntax

section \<open>The Patricia trie of \<open>ys::PatriciaTrie\<close>\<close>

text \<open>
  The class template \<open>PatriciaTrie<KTYPE, LTYPE, VTYPE, INVALID = ~(VTYPE)0>\<close> maps arrays of
  symbols to values. The embedding follows the three-parameter header (the one the driver
  \<open>main.cpp\<close> instantiates as \<open>PatriciaTrie<char, unsigned int, unsigned int>\<close>).

  \<^item> \<open>KTYPE\<close> is the type variable \<open>'k\<close>.
  \<^item> \<open>VTYPE\<close> is an integer type of some width, \<open>'v word\<close>; \<open>INVALID\<close> has its default
    \<open>~(VTYPE)0\<close>.
  \<^item> A key is passed as a pointer and an \<open>LTYPE\<close> length; the model passes the list of the
    \<open>length\<close> symbols the pointer addresses, so \<open>key + n, length - n\<close> is \<open>drop n key\<close>.
    Every index the code computes is below the length of the key it was given, so no
    \<open>LTYPE\<close> operation wraps around.
  \<^item> \<open>std::unordered_map<K, Node*>\<close> is an association list read with \<open>map_of\<close> (\<open>find\<close>)
    and written with \<open>AList.update\<close> (\<open>operator[]\<close> assignment). A null map pointer is
    \<open>None\<close>.
  \<^item> Nodes are owned by exactly one parent, so in-place mutation of a node is the
    replacement of that node in the tree that is returned.
  \<^item> A failing \<open>assert\<close> is the error \<open>AssertionFailure\<close>. The \<open>assert(key)\<close> null checks
    have no counterpart: a list is never null.
  \<^item> \<open>Node::cut_head\<close> releases the buffer of the edge label and then copies the rest of
    the label out of the released buffer. What such a read returns is not determined by
    the program; it is a parameter \<open>rd\<close> of the model: \<open>rd d j\<close> is the symbol read at index
    \<open>j\<close> of the released buffer that held \<open>d\<close>. Every call of \<open>add_key\<close> has its own \<open>rd\<close>.
\<close>

datatype error = AssertionFailure

text \<open>
  \<open>class Node\<close>: the child map \<open>c_\<close>, the edge label \<open>d_\<close> and the value \<open>v_\<close>. The
  member \<open>l_\<close> always holds the number of elements of \<open>d_\<close> (constructor and \<open>cut_head\<close>
  set both together), and \<open>d_\<close> is null exactly when \<open>l_\<close> is 0; both are the list \<open>d_of\<close>.
\<close>

datatype ('k, 'v) Node =
  Node (c_of: "('k \<times> ('k, 'v) Node) list option") (d_of: "'k list") (v_of: 'v)

definition l_of :: "('k, 'v) Node \<Rightarrow> nat" where
  "l_of node = length (d_of node)"

text \<open>The template argument \<open>INVALID = ~(VTYPE)0\<close> (\<open>I_\<close> inside \<open>Node\<close>).\<close>

definition INVALID :: "'v::len word" where
  "INVALID = NOT 0"

text \<open>The constructor \<open>Node(key, length, value)\<close>: no child map, a copy of \<open>length\<close> symbols.\<close>

definition new_Node :: "'k list \<Rightarrow> nat \<Rightarrow> 'v \<Rightarrow> ('k, 'v) Node" where
  "new_Node key len val = Node None (take len key) val"

text \<open>
  \<open>Node::cut_head(length)\<close> is meant to drop the first \<open>length\<close> symbols of the edge label.
  It subtracts \<open>length\<close> from \<open>l_\<close>, executes \<open>delete [] d_\<close>, and then, when symbols remain,
  allocates the new buffer and fills it with \<open>memcpy\<close> from \<open>d_ + length\<close>, which by then
  points into the released buffer. The new label has the right length, and its symbols are
  those the reads of the released buffer return: \<open>rd (d_of node) j\<close> for the indices \<open>j\<close> from
  \<open>len\<close> on. When no symbol remains nothing is read and the label is empty.
\<close>

definition cut_head ::
  "('k list \<Rightarrow> nat \<Rightarrow> 'k) \<Rightarrow> ('k, 'v) Node \<Rightarrow> nat \<Rightarrow> error + ('k, 'v) Node" where
  "cut_head rd node len =
     (if \<not> len \<le> l_of node then Inl AssertionFailure
      else Inr (Node (c_of node) (map (rd (d_of node)) [len..<l_of node]) (v_of node)))"

text \<open>
  The reads of a released buffer that still holds what it held. With them \<open>cut_head\<close>
  does what the sibling header's \<open>cut_head\<close> does, which copies before it releases.
\<close>

definition intact :: "'k list \<Rightarrow> nat \<Rightarrow> 'k" where
  "intact d j = d ! j"

text \<open>
  \<open>Node::remove_key\<close>. \<open>memcmp(d_, key, l_) != 0\<close> is reached with \<open>l_ \<le> length\<close> and
  compares the first \<open>l_\<close> symbols. The result is the returned value and the node after
  the call.
\<close>

fun Node_remove_key ::
  "('k, 'v::len word) Node \<Rightarrow> 'k list \<Rightarrow> 'v word \<times> ('k, 'v word) Node" where
  "Node_remove_key node key =
     (if length key < l_of node then (INVALID, node)
      else if take (l_of node) key \<noteq> d_of node then (INVALID, node)
      else if length key = l_of node then
        (v_of node, Node (c_of node) (d_of node) INVALID)
      else (case c_of node of
              None \<Rightarrow> (INVALID, node)
            | Some m \<Rightarrow>
                (case map_of m (key ! l_of node) of
                   None \<Rightarrow> (INVALID, node)
                 | Some ch \<Rightarrow>
                     (case Node_remove_key ch (drop (l_of node + 1) key) of
                        (r, ch') \<Rightarrow>
                          (r, Node (Some (AList.update (key ! l_of node) ch' m))
                                (d_of node) (v_of node))))))"

text \<open>\<open>Node::get_value\<close>.\<close>

fun Node_get_value :: "('k, 'v::len word) Node \<Rightarrow> 'k list \<Rightarrow> 'v word" where
  "Node_get_value node key =
     (if length key < l_of node then INVALID
      else if take (l_of node) key \<noteq> d_of node then INVALID
      else if length key = l_of node then v_of node
      else (case c_of node of
              None \<Rightarrow> INVALID
            | Some m \<Rightarrow>
                (case map_of m (key ! l_of node) of
                   None \<Rightarrow> INVALID
                 | Some ch \<Rightarrow> Node_get_value ch (drop (l_of node + 1) key))))"

text \<open>
  \<open>Node::get_values\<close>: the vector \<open>values\<close> is passed in and the vector after the call is
  returned; \<open>push_back\<close> appends at the end.
\<close>

fun Node_get_values ::
  "('k, 'v::len word) Node \<Rightarrow> 'k list \<Rightarrow> 'v word list \<Rightarrow> 'v word list" where
  "Node_get_values node buffer vals =
     (if length buffer < l_of node then vals
      else if take (l_of node) buffer \<noteq> d_of node then vals
      else
        (let vals1 = (if v_of node \<noteq> INVALID then vals @ [v_of node] else vals)
         in if l_of node < length buffer \<and> c_of node \<noteq> None then
              (case map_of (the (c_of node)) (buffer ! l_of node) of
                 None \<Rightarrow> vals1
               | Some ch \<Rightarrow> Node_get_values ch (drop (l_of node + 1) buffer) vals1)
            else vals1))"

text \<open>
  The loop of \<open>Node::Add\<close> that measures the common prefix of the edge label and the key:
  \<open>while (i < n) { if (node->d_[i] != key[i]) break; ++i; }\<close>.
\<close>

function Add_loop :: "'k list \<Rightarrow> 'k list \<Rightarrow> nat \<Rightarrow> nat \<Rightarrow> nat" where
  "Add_loop d key n i =
     (if i < n then (if d ! i \<noteq> key ! i then i else Add_loop d key n (i + 1)) else i)"
  by pat_completeness auto
termination
  by (relation "measure (\<lambda>(d, key, n, i). n - i)") auto

declare Add_loop.simps [simp del]

text \<open>
  The static \<open>Node::Add(node, key, length, value)\<close>; a null \<open>node\<close> is \<open>None\<close>. The
  result is the node returned, or the failure of an assertion.
\<close>

fun Node_Add ::
  "('k list \<Rightarrow> nat \<Rightarrow> 'k) \<Rightarrow> ('k, 'v::len word) Node option \<Rightarrow> 'k list \<Rightarrow> 'v word
     \<Rightarrow> error + ('k, 'v word) Node" where
  "Node_Add rd node key val =
     (if \<not> val \<noteq> INVALID then Inl AssertionFailure
      else (case node of
         Some nd \<Rightarrow>
           (let n = min (l_of nd) (length key);
                i = Add_loop (d_of nd) key n 0
            in if i < n then
                 (let p = new_Node key i INVALID
                  in case cut_head rd nd (i + 1) of
                       Inl e \<Rightarrow> Inl e
                     | Inr nd' \<Rightarrow>
                         Inr (Node (Some (AList.update (key ! i)
                                            (new_Node (drop (i + 1) key) (length key - (i + 1)) val)
                                            (AList.update (d_of nd ! i) nd' [])))
                                (d_of p) (v_of p)))
               else if l_of nd < length key then
                 (let c = (case c_of nd of None \<Rightarrow> None | Some m \<Rightarrow> map_of m (key ! i));
                      m = (case c_of nd of None \<Rightarrow> [] | Some m \<Rightarrow> m)
                  in case Node_Add rd c (drop (i + 1) key) val of
                       Inl e \<Rightarrow> Inl e
                     | Inr ch \<Rightarrow>
                         Inr (Node (Some (AList.update (key ! i) ch m)) (d_of nd) (v_of nd)))
               else if length key < l_of nd then
                 (let p = new_Node key (length key) val
                  in case cut_head rd nd (i + 1) of
                       Inl e \<Rightarrow> Inl e
                     | Inr nd' \<Rightarrow>
                         Inr (Node (Some (AList.update (d_of nd ! i) nd' [])) (d_of p) (v_of p)))
               else Inr (Node (c_of nd) (d_of nd) val))
       | None \<Rightarrow> Inr (new_Node key (length key) val)))"

text \<open>
  \<open>class PatriciaTrie\<close> has the single data member \<open>head_\<close>, the map from the first symbol
  of a key to the root node of its subtree. A default-constructed trie has no root.
\<close>

type_synonym ('k, 'v) PatriciaTrie = "('k \<times> ('k, 'v word) Node) list"

definition empty_trie :: "('k, 'v::len) PatriciaTrie" where
  "empty_trie = []"

text \<open>\<open>PatriciaTrie::add_key\<close>.\<close>

definition add_key ::
  "('k list \<Rightarrow> nat \<Rightarrow> 'k) \<Rightarrow> ('k, 'v::len) PatriciaTrie \<Rightarrow> 'k list \<Rightarrow> 'v word
     \<Rightarrow> error + ('k, 'v) PatriciaTrie" where
  "add_key rd head key val =
     (if \<not> 0 < length key then Inl AssertionFailure
      else if \<not> val \<noteq> INVALID then Inl AssertionFailure
      else (case Node_Add rd (map_of head (hd key)) (tl key) val of
              Inl e \<Rightarrow> Inl e
            | Inr node \<Rightarrow> Inr (AList.update (hd key) node head)))"

text \<open>
  \<open>PatriciaTrie::remove_key\<close>: the returned value and the trie after the call. Without a
  root for the first symbol the source executes \<open>return false;\<close>, which converts to the
  \<open>VTYPE\<close> value 0.
\<close>

definition remove_key ::
  "('k, 'v::len) PatriciaTrie \<Rightarrow> 'k list \<Rightarrow> error + ('v word \<times> ('k, 'v) PatriciaTrie)" where
  "remove_key head key =
     (if \<not> 0 < length key then Inl AssertionFailure
      else (case map_of head (hd key) of
              None \<Rightarrow> Inr (0, head)
            | Some node \<Rightarrow>
                (case Node_remove_key node (tl key) of
                   (r, node') \<Rightarrow> Inr (r, AList.update (hd key) node' head))))"

text \<open>\<open>PatriciaTrie::get_value\<close> (a \<open>const\<close> member), with the same \<open>return false;\<close>.\<close>

definition get_value :: "('k, 'v::len) PatriciaTrie \<Rightarrow> 'k list \<Rightarrow> error + 'v word" where
  "get_value head key =
     (if \<not> 0 < length key then Inl AssertionFailure
      else (case map_of head (hd key) of
              None \<Rightarrow> Inr 0
            | Some node \<Rightarrow> Inr (Node_get_value node (tl key))))"

text \<open>\<open>PatriciaTrie::get_values\<close> (a \<open>const\<close> member): the vector after the call.\<close>

definition get_values ::
  "('k, 'v::len) PatriciaTrie \<Rightarrow> 'k list \<Rightarrow> 'v word list \<Rightarrow> error + 'v word list" where
  "get_values head buffer vals =
     (if \<not> 0 < length buffer then Inl AssertionFailure
      else (case map_of head (hd buffer) of
              None \<Rightarrow> Inr vals
            | Some node \<Rightarrow> Inr (Node_get_values node (tl buffer) vals)))"

text \<open>\<open>PatriciaTrie::find_key\<close> (a \<open>const\<close> member).\<close>

definition find_key :: "('k, 'v::len) PatriciaTrie \<Rightarrow> 'k list \<Rightarrow> error + bool" where
  "find_key head key =
     (if \<not> 0 < length key then Inl AssertionFailure
      else (case get_value head key of
              Inl e \<Rightarrow> Inl e
            | Inr v \<Rightarrow> Inr (v \<noteq> INVALID)))"

section \<open>Sequences of calls and what they store\<close>

text \<open>
  A client can reach a trie only through the public members: it starts from the
  default-constructed trie and calls \<open>add_key\<close> and \<open>remove_key\<close> (the other members are
  \<open>const\<close>). \<open>run rd t xs\<close> makes the calls \<open>xs\<close> in order, every \<open>add_key\<close> with the reads
  \<open>rd\<close>; a failed assertion ends the run.
\<close>

datatype ('k, 'v) operation = AddKey "'k list" 'v | RemoveKey "'k list"

fun apply_operation ::
  "('k list \<Rightarrow> nat \<Rightarrow> 'k) \<Rightarrow> ('k, 'v::len) PatriciaTrie \<Rightarrow> ('k, 'v word) operation
     \<Rightarrow> error + ('k, 'v) PatriciaTrie" where
  "apply_operation rd t (AddKey key val) = add_key rd t key val"
| "apply_operation rd t (RemoveKey key) =
     (case remove_key t key of Inl e \<Rightarrow> Inl e | Inr (r, t') \<Rightarrow> Inr t')"

fun run ::
  "('k list \<Rightarrow> nat \<Rightarrow> 'k) \<Rightarrow> ('k, 'v::len) PatriciaTrie \<Rightarrow> ('k, 'v word) operation list
     \<Rightarrow> error + ('k, 'v) PatriciaTrie" where
  "run rd t [] = Inr t"
| "run rd t (x # xs) =
     (case apply_operation rd t x of Inl e \<Rightarrow> Inl e | Inr t' \<Rightarrow> run rd t' xs)"

text \<open>
  What the calls are meant to leave stored, independently of the trie: a key is present
  after the calls when it was added and has not been removed since, and it carries the
  value of its latest addition.
\<close>

fun stored_after ::
  "('k list \<rightharpoonup> 'v) \<Rightarrow> ('k, 'v) operation list \<Rightarrow> ('k list \<rightharpoonup> 'v)" where
  "stored_after m [] = m"
| "stored_after m (AddKey key val # xs) = stored_after (m(key \<mapsto> val)) xs"
| "stored_after m (RemoveKey key # xs) = stored_after (m(key := None)) xs"

definition stored :: "('k, 'v) operation list \<Rightarrow> ('k list \<rightharpoonup> 'v)" where
  "stored xs = stored_after Map.empty xs"

text \<open>
  A node carries a value exactly when \<open>v_\<close> is not \<open>INVALID\<close>. \<open>trie_lookup\<close> reads a trie
  as a partial map: the value of the node a key leads to, if there is a root for its
  first symbol and the node carries a value.
\<close>

definition terminal :: "'v::len word \<Rightarrow> 'v word option" where
  "terminal v = (if v = INVALID then None else Some v)"

definition trie_lookup :: "('k, 'v::len) PatriciaTrie \<Rightarrow> ('k list \<rightharpoonup> 'v word)" where
  "trie_lookup t k =
     (case k of [] \<Rightarrow> None
      | a # r \<Rightarrow> (case map_of t a of None \<Rightarrow> None
                  | Some n \<Rightarrow> terminal (Node_get_value n r)))"

text \<open>
  Two observations of a tree that do not depend on how it is searched. \<open>Node_structure\<close>
  keeps every node with its edge label and its child map (the symbols and the nodes under
  them) and forgets the values. \<open>Node_values\<close> lists the \<open>v_\<close> members of all nodes, a
  node before its children and the children in the order of the child map.
\<close>

definition Node_structure :: "('k, 'v) Node \<Rightarrow> ('k, unit) Node" where
  "Node_structure = map_Node id (\<lambda>v. ())"

definition trie_structure :: "('k \<times> ('k, 'v) Node) list \<Rightarrow> ('k \<times> ('k, unit) Node) list" where
  "trie_structure t = map (map_prod id Node_structure) t"

fun Node_values :: "('k, 'v) Node \<Rightarrow> 'v list" where
  "Node_values (Node None d v) = [v]"
| "Node_values (Node (Some m) d v) = v # concat (map (\<lambda>p. Node_values (snd p)) m)"

definition trie_values :: "('k \<times> ('k, 'v) Node) list \<Rightarrow> 'v list" where
  "trie_values t = concat (map (\<lambda>p. Node_values (snd p)) t)"

section \<open>The two-parameter header\<close>

text \<open>
  The repository holds a second header, \<open>PatriciaTrie<KTYPE, VTYPE>\<close>, an earlier
  iteration of the same design. Its nodes are handed the whole remaining key: the edge
  label of a node begins with the symbol under which the node is stored in the map of its
  parent, and is never empty (the constructor asserts \<open>0 < length\<close>, \<open>cut_head\<close> asserts
  \<open>length < l_\<close>). The child map is a member, not a pointer. The node functions assert
  \<open>d_[0] == key[0]\<close>; in the model an empty label, which no constructor produces, fails
  that assertion too. \<open>INV_\<close> is \<open>~(N_)0\<close>, the constant \<open>INVALID\<close> above.
\<close>

datatype ('k, 'v) Node_old =
  Node_old (d_old: "'k list") (v_old: 'v) (c_old: "('k \<times> ('k, 'v) Node_old) list")

definition new_Node_old :: "'k list \<Rightarrow> nat \<Rightarrow> 'v \<Rightarrow> error + ('k, 'v) Node_old" where
  "new_Node_old key len val =
     (if \<not> 0 < len then Inl AssertionFailure else Inr (Node_old (take len key) val []))"

definition cut_head_old :: "('k, 'v) Node_old \<Rightarrow> nat \<Rightarrow> error + ('k, 'v) Node_old" where
  "cut_head_old node len =
     (if \<not> len < length (d_old node) then Inl AssertionFailure
      else Inr (Node_old (drop len (d_old node)) (v_old node) (c_old node)))"

text \<open>
  The loop \<open>for (N_ i(1); i < l_; ++i) { if (d_[i] != key[i]) return INV_; }\<close> of
  \<open>get_value\<close> and \<open>remove_key\<close>: true when it runs to its end.
\<close>

function compare_loop_old :: "'k list \<Rightarrow> 'k list \<Rightarrow> nat \<Rightarrow> nat \<Rightarrow> bool" where
  "compare_loop_old d key l i =
     (if i < l then (if d ! i \<noteq> key ! i then False else compare_loop_old d key l (i + 1))
      else True)"
  by pat_completeness auto
termination
  by (relation "measure (\<lambda>(d, key, l, i). l - i)") auto

declare compare_loop_old.simps [simp del]

fun Node_get_value_old :: "('k, 'v::len word) Node_old \<Rightarrow> 'k list \<Rightarrow> error + 'v word" where
  "Node_get_value_old node key =
     (if \<not> 0 < length key then Inl AssertionFailure
      else if \<not> (d_old node \<noteq> [] \<and> hd (d_old node) = hd key) then Inl AssertionFailure
      else if length key < length (d_old node) then Inr INVALID
      else if \<not> compare_loop_old (d_old node) key (length (d_old node)) 1 then Inr INVALID
      else if length key = length (d_old node) then Inr (v_old node)
      else (case map_of (c_old node) (key ! length (d_old node)) of
              None \<Rightarrow> Inr INVALID
            | Some ch \<Rightarrow> Node_get_value_old ch (drop (length (d_old node)) key)))"

fun Node_remove_key_old ::
  "('k, 'v::len word) Node_old \<Rightarrow> 'k list \<Rightarrow> error + ('v word \<times> ('k, 'v word) Node_old)" where
  "Node_remove_key_old node key =
     (if \<not> 0 < length key then Inl AssertionFailure
      else if \<not> (d_old node \<noteq> [] \<and> hd (d_old node) = hd key) then Inl AssertionFailure
      else if length key < length (d_old node) then Inr (INVALID, node)
      else if \<not> compare_loop_old (d_old node) key (length (d_old node)) 1 then
        Inr (INVALID, node)
      else if length key = length (d_old node) then
        Inr (v_old node, Node_old (d_old node) INVALID (c_old node))
      else (case map_of (c_old node) (key ! length (d_old node)) of
              None \<Rightarrow> Inr (INVALID, node)
            | Some ch \<Rightarrow>
                (case Node_remove_key_old ch (drop (length (d_old node)) key) of
                   Inl e \<Rightarrow> Inl e
                 | Inr (r, ch') \<Rightarrow>
                     Inr (r, Node_old (d_old node) (v_old node)
                               (AList.update (key ! length (d_old node)) ch' (c_old node))))))"

text \<open>
  \<open>Node::Add\<close> of this header; its loop is the one of the other header, started at
  index 1.
\<close>

function Node_Add_old ::
  "('k, 'v::len word) Node_old option \<Rightarrow> 'k list \<Rightarrow> 'v word \<Rightarrow> error + ('k, 'v word) Node_old" where
  "Node_Add_old node key val =
     (if \<not> 0 < length key then Inl AssertionFailure
      else if \<not> val \<noteq> INVALID then Inl AssertionFailure
      else (case node of
         None \<Rightarrow> new_Node_old key (length key) val
       | Some nd \<Rightarrow>
          (if \<not> (d_old nd \<noteq> [] \<and> hd (d_old nd) = hd key) then Inl AssertionFailure
           else
             (let n = min (length (d_old nd)) (length key);
                  i = Add_loop (d_old nd) key n 1
              in if i < n then
                   (case new_Node_old key i INVALID of Inl e \<Rightarrow> Inl e | Inr p \<Rightarrow>
                    (case cut_head_old nd i of Inl e \<Rightarrow> Inl e | Inr nd' \<Rightarrow>
                     (case new_Node_old (drop i key) (length key - i) val of Inl e \<Rightarrow> Inl e
                      | Inr nw \<Rightarrow>
                          Inr (Node_old (d_old p) (v_old p)
                                 (AList.update (key ! i) nw
                                    (AList.update (d_old nd ! i) nd' (c_old p)))))))
                 else if length (d_old nd) < length key then
                   (case Node_Add_old (map_of (c_old nd) (key ! i)) (drop i key) val of
                      Inl e \<Rightarrow> Inl e
                    | Inr ch \<Rightarrow>
                        Inr (Node_old (d_old nd) (v_old nd) (AList.update (key ! i) ch (c_old nd))))
                 else if length key < length (d_old nd) then
                   (case new_Node_old key (length key) val of Inl e \<Rightarrow> Inl e | Inr p \<Rightarrow>
                    (case cut_head_old nd i of Inl e \<Rightarrow> Inl e | Inr nd' \<Rightarrow>
                       Inr (Node_old (d_old p) (v_old p)
                              (AList.update (d_old nd ! i) nd' (c_old p)))))
                 else Inr (Node_old (d_old nd) val (c_old nd))))))"
  by pat_completeness auto
termination
  apply (relation "measure (\<lambda>(node, key, val). length key)")
   apply simp
  subgoal premises prems for node key val nd n i
  proof -
    have ge: "j \<le> Add_loop d k m j" for d k :: "'k list" and m j
    proof (induction d k m j rule: Add_loop.induct)
      case (1 d k m j)
      show ?case
      proof (cases "j < m \<and> d ! j = k ! j")
        case True
        with 1 have "j + 1 \<le> Add_loop d k m (j + 1)" by simp
        with True show ?thesis by (subst Add_loop.simps) simp
      next
        case False
        then show ?thesis by (subst Add_loop.simps) auto
      qed
    qed
    from prems ge [of 1 "d_old nd" key n] show ?thesis by simp
  qed
  done

type_synonym ('k, 'v) PatriciaTrie_old = "('k \<times> ('k, 'v word) Node_old) list"

definition add_key_old ::
  "('k, 'v::len) PatriciaTrie_old \<Rightarrow> 'k list \<Rightarrow> 'v word \<Rightarrow> error + ('k, 'v) PatriciaTrie_old" where
  "add_key_old head key val =
     (if \<not> 0 < length key then Inl AssertionFailure
      else if \<not> val \<noteq> INVALID then Inl AssertionFailure
      else (case Node_Add_old (map_of head (hd key)) key val of
              Inl e \<Rightarrow> Inl e
            | Inr node \<Rightarrow> Inr (AList.update (hd key) node head)))"

definition remove_key_old ::
  "('k, 'v::len) PatriciaTrie_old \<Rightarrow> 'k list
     \<Rightarrow> error + ('v word \<times> ('k, 'v) PatriciaTrie_old)" where
  "remove_key_old head key =
     (if \<not> 0 < length key then Inl AssertionFailure
      else (case map_of head (hd key) of
              None \<Rightarrow> Inr (0, head)
            | Some node \<Rightarrow>
                (case Node_remove_key_old node key of
                   Inl e \<Rightarrow> Inl e
                 | Inr (r, node') \<Rightarrow> Inr (r, AList.update (hd key) node' head))))"

definition get_value_old :: "('k, 'v::len) PatriciaTrie_old \<Rightarrow> 'k list \<Rightarrow> error + 'v word" where
  "get_value_old head key =
     (if \<not> 0 < length key then Inl AssertionFailure
      else (case map_of head (hd key) of
              None \<Rightarrow> Inr 0
            | Some node \<Rightarrow> Node_get_value_old node key))"

definition find_key_old :: "('k, 'v::len) PatriciaTrie_old \<Rightarrow> 'k list \<Rightarrow> error + bool" where
  "find_key_old head key =
     (if \<not> 0 < length key then Inl AssertionFailure
      else (case get_value_old head key of
              Inl e \<Rightarrow> Inl e
            | Inr v \<Rightarrow> Inr (v \<noteq> INVALID)))"

text \<open>
  In the tries this header builds, every node stored under a symbol has a non-empty label
  that begins with that symbol.
\<close>

fun wf_Node_old :: "'k \<Rightarrow> ('k, 'v) Node_old \<Rightarrow> bool" where
  "wf_Node_old a (Node_old d v c) =
     (d \<noteq> [] \<and> hd d = a \<and> (\<forall>p \<in> set c. wf_Node_old (fst p) (snd p)))"

definition wf_old :: "('k \<times> ('k, 'v) Node_old) list \<Rightarrow> bool" where
  "wf_old t = (\<forall>p \<in> set t. wf_Node_old (fst p) (snd p))"

section \<open>Unfolding the node operations\<close>

declare Node_remove_key.simps [simp del] Node_get_value.simps [simp del]
  Node_get_values.simps [simp del] Node_Add.simps [simp del]

lemma Add_loop_common:
  "i \<le> length p \<Longrightarrow> length p \<le> n \<Longrightarrow>
   (length p < n \<Longrightarrow> (p @ xs) ! length p \<noteq> (p @ ys) ! length p) \<Longrightarrow>
   Add_loop (p @ xs) (p @ ys) n i = length p"
proof (induction "length p - i" arbitrary: i)
  case 0
  then have "i = length p" by simp
  with 0 show ?case by (simp add: Add_loop.simps)
next
  case (Suc k)
  then have lt: "i < length p" by simp
  then have "(p @ xs) ! i = (p @ ys) ! i" by (simp add: nth_append)
  moreover have "Add_loop (p @ xs) (p @ ys) n (i + 1) = length p"
    using Suc lt by (intro Suc.hyps) auto
  ultimately show ?case using lt Suc.prems by (subst Add_loop.simps) simp
qed

lemma key_cases:
  fixes d key :: "'k list"
  obtains (split) p a d' b k' where "d = p @ a # d'" "key = p @ b # k'" "a \<noteq> b"
  | (longer) b k' where "key = d @ b # k'"
  | (shorter) a d' where "d = key @ a # d'"
  | (same) "key = d"
proof (induction d arbitrary: key thesis)
  case Nil
  then show ?case by (cases key) auto
next
  case (Cons x d)
  show ?case
  proof (cases key)
    case Nil
    with Cons.prems(3) show ?thesis by simp
  next
    case (Cons y key')
    show ?thesis
    proof (cases "x = y")
      case False
      with Cons Cons.prems(1)[of "[]" x d y key'] show ?thesis by simp
    next
      case True
      show ?thesis
      proof (rule Cons.IH[of key'])
        fix p a d' b k' assume "d = p @ a # d'" "key' = p @ b # k'" "a \<noteq> b"
        then show thesis using Cons.prems(1)[of "x # p" a d' b k'] True Cons by simp
      next
        fix b k' assume "key' = d @ b # k'"
        then show thesis using Cons.prems(2)[of b k'] True Cons by simp
      next
        fix a d' assume "d = key' @ a # d'"
        then show thesis using Cons.prems(3)[of a d'] True Cons by simp
      next
        assume "key' = d"
        then show thesis using Cons.prems(4) True Cons by simp
      qed
    qed
  qed
qed

lemma Add_loop_split:
  "a \<noteq> b \<Longrightarrow> length p < n \<Longrightarrow> Add_loop (p @ a # d') (p @ b # k') n 0 = length p"
  by (rule Add_loop_common) auto

lemma Add_loop_longer: "Add_loop d (d @ ys) (length d) 0 = length d"
  using Add_loop_common [of 0 d "length d" "[]" ys] by simp

lemma Add_loop_shorter: "Add_loop (key @ xs) key (length key) 0 = length key"
  using Add_loop_common [of 0 key "length key" xs "[]"] by simp

lemma map_intact: "map (intact d) [n..<length d] = drop n d"
  by (rule nth_equalityI) (simp_all add: intact_def)

lemma Node_Add_None:
  "val \<noteq> INVALID \<Longrightarrow> Node_Add rd None key val = Inr (Node None key val)"
  by (subst Node_Add.simps) (simp add: new_Node_def)

lemma Node_Add_Inr_valid: "Node_Add rd n key val = Inr n' \<Longrightarrow> val \<noteq> INVALID"
  by (subst (asm) Node_Add.simps) (simp split: if_splits)

lemma Node_Add_split:
  assumes "d = p @ a # d'" "key = p @ b # k'" "a \<noteq> b" "val \<noteq> INVALID"
  shows "Node_Add rd (Some (Node c d v)) key val =
         Inr (Node (Some [(a, Node c (map (rd d) [Suc (length p)..<length d]) v),
                          (b, Node None k' val)]) p INVALID)"
proof -
  let ?node = "Node c d v"
  have i: "Add_loop (d_of ?node) key (min (l_of ?node) (length key)) 0 = length p"
    using assms by (simp add: l_of_def Add_loop_split)
  show ?thesis
    apply (subst Node_Add.simps)
    unfolding option.case Let_def i using assms
    by (simp add: l_of_def new_Node_def cut_head_def)
qed

lemma Node_Add_longer:
  assumes "key = d @ b # k'" "val \<noteq> INVALID"
  shows "Node_Add rd (Some (Node c d v)) key val =
         (case Node_Add rd (case c of None \<Rightarrow> None | Some m \<Rightarrow> map_of m b) k' val of
            Inl e \<Rightarrow> Inl e
          | Inr ch \<Rightarrow>
              Inr (Node (Some (AList.update b ch (case c of None \<Rightarrow> [] | Some m \<Rightarrow> m))) d v))"
proof -
  let ?node = "Node c d v"
  have i: "Add_loop (d_of ?node) key (min (l_of ?node) (length key)) 0 = length d"
    using assms by (simp add: l_of_def Add_loop_longer)
  show ?thesis
    apply (subst Node_Add.simps)
    unfolding option.case Let_def i using assms
    by (simp add: l_of_def cong: option.case_cong sum.case_cong)
qed

lemma Node_Add_shorter:
  assumes "d = key @ a # d'" "val \<noteq> INVALID"
  shows "Node_Add rd (Some (Node c d v)) key val =
         Inr (Node (Some [(a, Node c (map (rd d) [Suc (length key)..<length d]) v)]) key val)"
proof -
  let ?node = "Node c d v"
  have i: "Add_loop (d_of ?node) key (min (l_of ?node) (length key)) 0 = length key"
    using assms by (simp add: l_of_def Add_loop_shorter)
  show ?thesis
    apply (subst Node_Add.simps)
    unfolding option.case Let_def i using assms
    by (simp add: l_of_def new_Node_def cut_head_def)
qed

lemma Node_Add_same:
  assumes "val \<noteq> INVALID"
  shows "Node_Add rd (Some (Node c d v)) d val = Inr (Node c d val)"
proof -
  let ?node = "Node c d v"
  have i: "Add_loop (d_of ?node) d (min (l_of ?node) (length d)) 0 = length d"
    using Add_loop_longer [of d "[]"] by (simp add: l_of_def)
  show ?thesis
    apply (subst Node_Add.simps)
    unfolding option.case Let_def i using assms
    by (simp add: l_of_def)
qed


lemma gv_same: "Node_get_value (Node c d v) d = v"
  by (subst Node_get_value.simps) (simp add: l_of_def)

lemma gv_longer:
  "Node_get_value (Node c d v) (d @ b # k') =
     (case c of None \<Rightarrow> INVALID
      | Some m \<Rightarrow> (case map_of m b of None \<Rightarrow> INVALID | Some ch \<Rightarrow> Node_get_value ch k'))"
  by (subst Node_get_value.simps) (simp add: l_of_def split: option.split)

lemma gv_shorter: "Node_get_value (Node c (key @ a # d') v) key = INVALID"
  by (subst Node_get_value.simps) (simp add: l_of_def)

lemma gv_split:
  "a \<noteq> b \<Longrightarrow> Node_get_value (Node c (p @ a # d') v) (p @ b # k') = INVALID"
  by (subst Node_get_value.simps) (simp add: l_of_def)

lemma gv_prefix:
  "Node_get_value (Node c (p @ d) v) (p @ r) = Node_get_value (Node c d v) r"
  by (subst (1 2) Node_get_value.simps) (simp add: l_of_def nth_append split: option.split)

lemma gv_prefix_Cons:
  "Node_get_value (Node c (p @ a # d') v) (p @ a # r) = Node_get_value (Node c d' v) r"
  using gv_prefix [of c "p @ [a]" d' v r] by simp

lemmas gv_simps = gv_same gv_longer gv_shorter gv_split

lemma gv_new: "Node_get_value (Node None key val) key' = (if key' = key then val else INVALID)"
  by (rule key_cases [of key key']) (auto simp: gv_simps)


text \<open>
  When the reads of the released buffer return what it held, \<open>Node::Add\<close> changes the
  value found for the key added and for no other key.
\<close>

lemma Node_Add_split_intact:
  assumes "d = p @ a # d'" "key = p @ b # k'" "a \<noteq> b" "val \<noteq> INVALID"
  shows "Node_Add intact (Some (Node c d v)) key val =
         Inr (Node (Some [(a, Node c d' v), (b, Node None k' val)]) p INVALID)"
proof -
  have "map (intact d) [Suc (length p)..<length d] = d'"
    unfolding map_intact using assms(1) by simp
  then show ?thesis using Node_Add_split [OF assms, of intact c v] by simp
qed

lemma Node_Add_shorter_intact:
  assumes "d = key @ a # d'" "val \<noteq> INVALID"
  shows "Node_Add intact (Some (Node c d v)) key val =
         Inr (Node (Some [(a, Node c d' v)]) key val)"
proof -
  have "map (intact d) [Suc (length key)..<length d] = d'"
    unfolding map_intact using assms(1) by simp
  then show ?thesis using Node_Add_shorter [OF assms, of intact c v] by simp
qed

lemma Node_get_value_Add_intact:
  fixes n :: "('k, 'v::len word) Node option"
  shows "Node_Add intact n key val = Inr n' \<Longrightarrow>
     Node_get_value n' key' =
       (if key' = key then val
        else (case n of None \<Rightarrow> INVALID | Some node \<Rightarrow> Node_get_value node key'))"
proof (induction key arbitrary: n n' key' rule: length_induct)
  case (1 key)
  from "1.prems" have val: "val \<noteq> INVALID" by (rule Node_Add_Inr_valid)
  show ?case
  proof (cases n)
    case None
    with "1.prems" val have "n' = Node None key val" by (simp add: Node_Add_None)
    with None show ?thesis by (simp add: gv_new)
  next
    case (Some node)
    obtain c d v where node: "node = Node c d v" by (cases node)
    show ?thesis
    proof (rule key_cases [of d key])
      fix p a d' b k' assume h: "d = p @ a # d'" "key = p @ b # k'" "a \<noteq> b"
      from "1.prems" have
        n': "n' = Node (Some [(a, Node c d' v), (b, Node None k' val)]) p INVALID"
        unfolding Some node Node_Add_split_intact [OF h val] by simp
      show ?thesis
        unfolding Some node n'
        using h by (rule_tac key_cases [of p key']) (auto simp: gv_simps gv_new gv_prefix_Cons)
    next
      fix b k' assume h: "key = d @ b # k'"
      from "1.prems" obtain ch where
        ch: "Node_Add intact (case c of None \<Rightarrow> None | Some m \<Rightarrow> map_of m b) k' val = Inr ch"
        and n': "n' = Node (Some (AList.update b ch (case c of None \<Rightarrow> [] | Some m \<Rightarrow> m))) d v"
        unfolding Some node Node_Add_longer [OF h val] by (auto split: sum.splits)
      have "length k' < length key" using h by simp
      from "1.IH" [rule_format, OF this ch] have IH: "Node_get_value ch r =
          (if r = k' then val
           else (case (case c of None \<Rightarrow> None | Some m \<Rightarrow> map_of m b) of
                   None \<Rightarrow> INVALID | Some node \<Rightarrow> Node_get_value node r))" for r .
      show ?thesis
        unfolding Some node n'
        using h
        by (rule_tac key_cases [of d key'])
           (auto simp: gv_simps IH update_conv' split: option.split)
    next
      fix a d' assume h: "d = key @ a # d'"
      from "1.prems" have n': "n' = Node (Some [(a, Node c d' v)]) key val"
        unfolding Some node Node_Add_shorter_intact [OF h val] by simp
      show ?thesis
        unfolding Some node n'
        using h
        by (rule_tac key_cases [of key key']) (auto simp: gv_simps gv_prefix_Cons)
    next
      assume h: "key = d"
      from "1.prems" have n': "n' = Node c d val"
        unfolding Some node h Node_Add_same [OF val] by simp
      show ?thesis
        unfolding Some node n' h
        by (rule key_cases [of d key']) (auto simp: gv_simps)
    qed
  qed
qed

lemma rk_same: "Node_remove_key (Node c d v) d = (v, Node c d INVALID)"
  by (subst Node_remove_key.simps) (simp add: l_of_def)

lemma rk_longer:
  "Node_remove_key (Node c d v) (d @ b # k') =
     (case c of None \<Rightarrow> (INVALID, Node c d v)
      | Some m \<Rightarrow>
          (case map_of m b of None \<Rightarrow> (INVALID, Node c d v)
           | Some ch \<Rightarrow>
               (case Node_remove_key ch k' of
                  (r, ch') \<Rightarrow> (r, Node (Some (AList.update b ch' m)) d v))))"
  by (subst Node_remove_key.simps) (simp add: l_of_def split: option.split)

lemma rk_shorter:
  "Node_remove_key (Node c (key @ a # d') v) key = (INVALID, Node c (key @ a # d') v)"
  by (subst Node_remove_key.simps) (simp add: l_of_def)

lemma rk_split:
  "a \<noteq> b \<Longrightarrow> Node_remove_key (Node c (p @ a # d') v) (p @ b # k') =
     (INVALID, Node c (p @ a # d') v)"
  by (subst Node_remove_key.simps) (simp add: l_of_def)

lemmas rk_simps = rk_same rk_longer rk_shorter rk_split

lemma Node_remove_key_fst:
  fixes n :: "('k, 'v::len word) Node"
  shows "fst (Node_remove_key n key) = Node_get_value n key"
proof (induction key arbitrary: n rule: length_induct)
  case (1 key)
  obtain c d v where n: "n = Node c d v" by (cases n)
  show ?case
    unfolding n
  proof (rule key_cases [of d key])
    fix b k' assume h: "key = d @ b # k'"
    have IH: "\<And>ch :: ('k, 'v word) Node. fst (Node_remove_key ch k') = Node_get_value ch k'"
      using "1.IH" [rule_format, of k'] h by simp
    have IH': "\<And>(ch :: ('k, 'v word) Node) x ch'.
        Node_remove_key ch k' = (x, ch') \<Longrightarrow> Node_get_value ch k' = x"
      using IH by (metis fst_conv)
    show "fst (Node_remove_key (Node c d v) key) = Node_get_value (Node c d v) key"
      unfolding h
      by (auto simp: rk_simps gv_simps IH' split: option.split prod.split)
  qed (auto simp: rk_simps gv_simps)
qed

lemma Node_get_value_remove:
  fixes n :: "('k, 'v::len word) Node"
  shows "Node_get_value (snd (Node_remove_key n key)) key' =
     (if key' = key then INVALID else Node_get_value n key')"
proof (induction key arbitrary: n key' rule: length_induct)
  case (1 key)
  obtain c d v where n: "n = Node c d v" by (cases n)
  show ?case
    unfolding n
  proof (rule key_cases [of d key])
    fix b k' assume h: "key = d @ b # k'"
    have IH: "\<And>(ch :: ('k, 'v word) Node) r. Node_get_value (snd (Node_remove_key ch k')) r =
        (if r = k' then INVALID else Node_get_value ch r)"
      using "1.IH" [rule_format, of k'] h by simp
    have IH': "\<And>(ch :: ('k, 'v word) Node) r x ch'. Node_remove_key ch k' = (x, ch') \<Longrightarrow> Node_get_value ch' r =
        (if r = k' then INVALID else Node_get_value ch r)"
      using IH by (metis snd_conv)
    show "Node_get_value (snd (Node_remove_key (Node c d v) key)) key' =
      (if key' = key then INVALID else Node_get_value (Node c d v) key')"
      unfolding h rk_longer
      by (rule key_cases [of d key'])
         (auto simp: gv_simps IH' update_conv' split: option.split prod.split)
  next
    assume h: "key = d"
    show "Node_get_value (snd (Node_remove_key (Node c d v) key)) key' =
      (if key' = key then INVALID else Node_get_value (Node c d v) key')"
      unfolding h
      by (rule key_cases [of d key']) (auto simp: rk_simps gv_simps)
  qed (auto simp: rk_simps gv_simps)
qed

lemma gvs_same:
  "Node_get_values (Node c d v) d vals = (if v \<noteq> INVALID then vals @ [v] else vals)"
  by (subst Node_get_values.simps) (simp add: l_of_def)

lemma gvs_longer:
  "Node_get_values (Node c d v) (d @ b # r) vals =
     (case c of None \<Rightarrow> (if v \<noteq> INVALID then vals @ [v] else vals)
      | Some m \<Rightarrow>
          (case map_of m b of None \<Rightarrow> (if v \<noteq> INVALID then vals @ [v] else vals)
           | Some ch \<Rightarrow> Node_get_values ch r (if v \<noteq> INVALID then vals @ [v] else vals)))"
  by (subst Node_get_values.simps) (simp add: l_of_def split: option.split)

lemma gvs_shorter: "Node_get_values (Node c (q @ a # d') v) q vals = vals"
  by (subst Node_get_values.simps) (simp add: l_of_def)

lemma gvs_split:
  "a \<noteq> b \<Longrightarrow> Node_get_values (Node c (p @ a # d') v) (p @ b # k') vals = vals"
  by (subst Node_get_values.simps) (simp add: l_of_def)

lemmas gvs_simps = gvs_same gvs_longer gvs_shorter gvs_split

lemma Node_get_values_append:
  fixes n :: "('k, 'v::len word) Node"
  shows "Node_get_values n q vals = vals @ Node_get_values n q []"
proof (induction q arbitrary: n vals rule: length_induct)
  case (1 q)
  obtain c d v where n: "n = Node c d v" by (cases n)
  show ?case
    unfolding n
  proof (rule key_cases [of d q])
    fix b r assume h: "q = d @ b # r"
    have IH: "Node_get_values ch r vals = vals @ Node_get_values ch r []"
      for ch :: "('k, 'v word) Node" and vals
    proof (rule "1.IH" [rule_format])
      show "length r < length q" using h by simp
    qed
    have A: "Node_get_values ch r (vals @ xs) = vals @ Node_get_values ch r xs"
      for ch :: "('k, 'v word) Node" and xs
    proof -
      have "Node_get_values ch r (vals @ xs) = (vals @ xs) @ Node_get_values ch r []"
        by (rule IH)
      also have "\<dots> = vals @ (xs @ Node_get_values ch r [])" by simp
      also have "xs @ Node_get_values ch r [] = Node_get_values ch r xs"
        by (rule IH [symmetric])
      finally show ?thesis .
    qed
    show "Node_get_values (Node c d v) q vals = vals @ Node_get_values (Node c d v) q []"
    proof (cases "v = INVALID")
      case True
      then show ?thesis
        unfolding h gvs_longer using IH [of _ vals] by (simp split: option.split)
    next
      case False
      then show ?thesis
        unfolding h gvs_longer using A [of _ "[v]"] by (simp split: option.split)
    qed
  qed (auto simp: gvs_simps)
qed

lemma map_filter_all_None: "(\<And>x. x \<in> set xs \<Longrightarrow> f x = None) \<Longrightarrow> List.map_filter f xs = []"
  by (induction xs) (auto simp: map_filter_simps)

lemma map_filter_append: "List.map_filter f (xs @ ys) = List.map_filter f xs @ List.map_filter f ys"
  by (simp add: List.map_filter_def)

lemma map_filter_map: "List.map_filter f (map g xs) = List.map_filter (f \<circ> g) xs"
  by (simp add: List.map_filter_def filter_map comp_def)

lemma gv_valid_prefix:
  "Node_get_value (Node c d v) key \<noteq> INVALID \<Longrightarrow> prefix d key"
  by (rule key_cases [of d key]) (auto simp: gv_simps)

lemma prefixes_butlast: "prefixes d = butlast (prefixes d) @ [d]"
  using append_butlast_last_id [of "prefixes d"] by simp

lemma map_filter_prefixes_edge:
  "List.map_filter (\<lambda>k. terminal (Node_get_value (Node c d v) k)) (prefixes d) =
     (if v \<noteq> INVALID then [v] else [])"
proof -
  have "List.map_filter (\<lambda>k. terminal (Node_get_value (Node c d v) k)) (butlast (prefixes d)) = []"
  proof (rule map_filter_all_None)
    fix x assume x: "x \<in> set (butlast (prefixes d))"
    have "x \<in> set (prefixes d)" using x by (rule in_set_butlastD)
    then have p: "prefix x d" by simp
    have "x \<noteq> d"
    proof
      assume "x = d"
      moreover have "distinct (butlast (prefixes d) @ [d])"
        using distinct_prefixes [of d] prefixes_butlast [of d] by simp
      ultimately show False using x by simp
    qed
    with p have "\<not> prefix d x" by (auto simp: prefix_order.antisym)
    then show "terminal (Node_get_value (Node c d v) x) = None"
      using gv_valid_prefix [of c d v x] by (auto simp: terminal_def)
  qed
  then show ?thesis
    by (subst prefixes_butlast) (simp add: map_filter_append map_filter_simps gv_same terminal_def)
qed

lemma Node_get_values_prefixes:
  fixes n :: "('k, 'v::len word) Node"
  shows "Node_get_values n q vals =
         vals @ List.map_filter (\<lambda>k. terminal (Node_get_value n k)) (prefixes q)"
proof (induction q arbitrary: n vals rule: length_induct)
  case (1 q)
  obtain c d v where n: "n = Node c d v" by (cases n)
  let ?f = "\<lambda>k. terminal (Node_get_value (Node c d v) k)"
  have none: "List.map_filter ?f (prefixes q) = []" if "\<not> prefix d q"
  proof (rule map_filter_all_None)
    fix x assume "x \<in> set (prefixes q)"
    then have "prefix x q" by simp
    with that have "\<not> prefix d x" using prefix_order.trans by blast
    then show "?f x = None"
      using gv_valid_prefix [of c d v x] by (auto simp: terminal_def)
  qed
  show ?case
    unfolding n
  proof (rule key_cases [of d q])
    fix p a d' b k' assume h: "d = p @ a # d'" "q = p @ b # k'" "a \<noteq> b"
    then have "\<not> prefix d q" by (auto simp: prefix_def)
    then have R: "List.map_filter ?f (prefixes q) = []" by (rule none)
    have L: "Node_get_values (Node c d v) q vals = vals"
      using h by (simp add: gvs_simps)
    show "Node_get_values (Node c d v) q vals = vals @ List.map_filter ?f (prefixes q)"
      unfolding L R by simp
  next
    fix a d' assume h: "d = q @ a # d'"
    then have "\<not> prefix d q" by (auto simp: prefix_def)
    then have R: "List.map_filter ?f (prefixes q) = []" by (rule none)
    have L: "Node_get_values (Node c d v) q vals = vals"
      using h by (simp add: gvs_simps)
    show "Node_get_values (Node c d v) q vals = vals @ List.map_filter ?f (prefixes q)"
      unfolding L R by simp
  next
    assume h: "q = d"
    show "Node_get_values (Node c d v) q vals = vals @ List.map_filter ?f (prefixes q)"
      unfolding h by (simp add: map_filter_prefixes_edge gvs_simps)
  next
    fix b r assume h: "q = d @ b # r"
    have IH: "Node_get_values ch r vals =
        vals @ List.map_filter (\<lambda>k. terminal (Node_get_value ch k)) (prefixes r)"
      for ch :: "('k, 'v word) Node" and vals
    proof (rule "1.IH" [rule_format])
      show "length r < length q" using h by simp
    qed
    have pre: "prefixes q = prefixes d @ map (\<lambda>x. d @ b # x) (prefixes r)"
      unfolding h by (simp add: prefixes_append comp_def)
    have rest: "List.map_filter ?f (map (\<lambda>x. d @ b # x) (prefixes r)) =
        (case c of None \<Rightarrow> []
         | Some m \<Rightarrow> (case map_of m b of None \<Rightarrow> []
            | Some ch \<Rightarrow> List.map_filter (\<lambda>k. terminal (Node_get_value ch k)) (prefixes r)))"
    proof (cases c)
      case None
      then show ?thesis
        by (simp add: map_filter_map comp_def gv_longer terminal_def map_filter_all_None)
    next
      case (Some m)
      show ?thesis
      proof (cases "map_of m b")
        case None
        with Some show ?thesis
          by (simp add: map_filter_map comp_def gv_longer terminal_def map_filter_all_None)
      next
        case (Some ch)
        with \<open>c = Some m\<close> show ?thesis
          by (simp add: map_filter_map comp_def gv_longer)
      qed
    qed
    show "Node_get_values (Node c d v) q vals = vals @ List.map_filter ?f (prefixes q)"
      unfolding pre map_filter_append rest map_filter_prefixes_edge
      unfolding h gvs_longer
      by (auto simp: IH split: option.split)
  qed
qed

section \<open>The trie as a map\<close>

lemma trie_lookup_empty: "trie_lookup empty_trie = Map.empty"
  by (rule ext) (simp add: trie_lookup_def empty_trie_def split: list.split)

text \<open>
  With reads that return what the released buffer held, \<open>add_key\<close> and \<open>remove_key\<close> act
  on the trie read as a map as they are meant to. (\<open>remove_key\<close> reads no released buffer.)
\<close>

lemma trie_lookup_add_key:
  assumes "add_key intact t key val = Inr t'"
  shows "trie_lookup t' = (trie_lookup t)(key \<mapsto> val)"
proof (rule ext)
  fix k
  from assms obtain a r n' where key: "key = a # r" and val: "val \<noteq> INVALID"
    and n': "Node_Add intact (map_of t a) r val = Inr n'"
    and t': "t' = AList.update a n' t"
    by (cases key) (auto simp: add_key_def split: if_splits sum.splits)
  note look = Node_get_value_Add_intact [OF n']
  show "trie_lookup t' k = ((trie_lookup t)(key \<mapsto> val)) k"
  proof (cases k)
    case Nil
    then show ?thesis by (simp add: trie_lookup_def key)
  next
    case (Cons b s)
    show ?thesis
    proof (cases "b = a")
      case True
      then show ?thesis using val
        by (simp add: trie_lookup_def key Cons t' update_conv' look terminal_def
            split: option.split)
    next
      case False
      then show ?thesis
        by (simp add: trie_lookup_def key Cons t' update_conv')
    qed
  qed
qed

lemma remove_key_Inr:
  assumes "remove_key t key = Inr (x, t')"
  obtains a r where "key = a # r" "map_of t a = None" "x = 0" "t' = t"
  | a r n where "key = a # r" "map_of t a = Some n" "x = Node_get_value n r"
      "t' = AList.update a (snd (Node_remove_key n r)) t"
proof (cases key)
  case Nil
  with assms show ?thesis by (simp add: remove_key_def)
next
  case (Cons a r)
  show ?thesis
  proof (cases "map_of t a")
    case None
    with assms Cons have "x = 0" "t' = t" by (simp_all add: remove_key_def)
    with Cons None show ?thesis by (rule that(1))
  next
    case (Some n)
    obtain y n' where rk: "Node_remove_key n r = (y, n')"
      by (cases "Node_remove_key n r")
    then have "y = Node_get_value n r" "n' = snd (Node_remove_key n r)"
      using Node_remove_key_fst [of n r] by simp_all
    moreover have "x = y" "t' = AList.update a n' t"
      using assms Cons Some rk by (simp_all add: remove_key_def)
    ultimately have "x = Node_get_value n r" "t' = AList.update a (snd (Node_remove_key n r)) t"
      by simp_all
    with Cons Some show ?thesis by (rule that(2))
  qed
qed

lemma trie_lookup_remove_key:
  assumes "remove_key t key = Inr (x, t')"
  shows "trie_lookup t' = (trie_lookup t)(key := None)"
  using assms
proof (cases rule: remove_key_Inr)
  case (1 a r)
  then have "trie_lookup t key = None" by (simp add: trie_lookup_def)
  then have "(trie_lookup t)(key := None) = trie_lookup t" by (simp add: fun_upd_idem_iff)
  with 1 show ?thesis by simp
next
  case (2 a r n)
  show ?thesis
  proof (rule ext)
    fix k
    show "trie_lookup t' k = ((trie_lookup t)(key := None)) k"
    proof (cases k)
      case Nil
      then show ?thesis by (simp add: trie_lookup_def 2)
    next
      case (Cons b s)
      show ?thesis
      proof (cases "b = a")
        case True
        then show ?thesis
          by (simp add: trie_lookup_def 2 Cons update_conv' Node_get_value_remove terminal_def)
      next
        case False
        then show ?thesis
          by (simp add: trie_lookup_def 2 Cons update_conv')
      qed
    qed
  qed
qed

lemma trie_lookup_run:
  "run intact t xs = Inr t' \<Longrightarrow> trie_lookup t' = stored_after (trie_lookup t) xs"
proof (induction xs arbitrary: t)
  case Nil
  then show ?case by simp
next
  case (Cons x xs)
  from Cons.prems obtain t1 where t1: "apply_operation intact t x = Inr t1"
    and r: "run intact t1 xs = Inr t'"
    by (auto split: sum.splits)
  show ?case
  proof (cases x)
    case (AddKey key val)
    with t1 have "trie_lookup t1 = (trie_lookup t)(key \<mapsto> val)"
      by (simp add: trie_lookup_add_key)
    with Cons.IH [OF r] show ?thesis unfolding AddKey stored_after.simps by (simp only:)
  next
    case (RemoveKey key)
    with t1 have "trie_lookup t1 = (trie_lookup t)(key := None)"
      by (auto simp: trie_lookup_remove_key split: sum.splits)
    with Cons.IH [OF r] show ?thesis unfolding RemoveKey stored_after.simps by (simp only:)
  qed
qed

lemma trie_lookup_stored: "run intact empty_trie xs = Inr t \<Longrightarrow> trie_lookup t = stored xs"
  unfolding stored_def using trie_lookup_run [of empty_trie xs t]
  by (simp add: trie_lookup_empty)

lemma prefixes_conv_take: "prefixes xs = map (\<lambda>n. take n xs) [0..<Suc (length xs)]"
proof (induction xs)
  case Nil
  then show ?case by simp
next
  case (Cons x xs)
  have "[0..<Suc (Suc (length xs))] = 0 # map Suc [0..<Suc (length xs)]"
    by (subst upt_conv_Cons) (simp_all add: map_Suc_upt del: upt_Suc)
  then show ?case using Cons by (simp add: comp_def del: upt_Suc)
qed

lemma nonempty_prefixes_conv_take:
  "map (\<lambda>n. take n (a # r)) [1..<Suc (length (a # r))] = map ((#) a) (prefixes r)"
proof -
  have "[1..<Suc (length (a # r))] = map Suc [0..<Suc (length r)]"
    by (simp add: map_Suc_upt del: upt_Suc)
  then show ?thesis
    by (simp add: prefixes_conv_take comp_def del: upt_Suc)
qed

lemma trie_lookup_SomeD:
  assumes "trie_lookup t key = Some val"
  obtains a r n where "key = a # r" "map_of t a = Some n" "Node_get_value n r = val"
    "val \<noteq> INVALID"
  using assms
  by (auto simp: trie_lookup_def terminal_def split: list.splits option.splits if_splits)

lemma trie_lookup_Some_get_value:
  assumes "trie_lookup t key = Some val"
  shows "get_value t key = Inr val" and "find_key t key = Inr True"
  using assms
  by (auto elim!: trie_lookup_SomeD simp: get_value_def find_key_def)

section \<open>Structure and values\<close>

lemma map_of_update_split:
  assumes "map_of m b = Some ch"
  shows "\<exists>m1 m2. m = m1 @ (b, ch) # m2 \<and> (\<forall>x. AList.update b x m = m1 @ (b, x) # m2)"
  using assms
proof (induction m)
  case Nil
  then show ?case by simp
next
  case (Cons p m)
  show ?case
  proof (cases "fst p = b")
    case True
    with Cons.prems have "p = (b, ch)" by (cases p) simp
    then have "p # m = [] @ (b, ch) # m \<and> (\<forall>x. AList.update b x (p # m) = [] @ (b, x) # m)"
      by simp
    then show ?thesis by blast
  next
    case False
    with Cons.prems have "map_of m b = Some ch" by (cases p) (simp split: if_splits)
    from Cons.IH [OF this] obtain m1 m2 where
      m: "m = m1 @ (b, ch) # m2" and u: "\<And>x. AList.update b x m = m1 @ (b, x) # m2" by blast
    have "p # m = (p # m1) @ (b, ch) # m2 \<and>
        (\<forall>x. AList.update b x (p # m) = (p # m1) @ (b, x) # m2)"
      using False m u by simp
    then show ?thesis by blast
  qed
qed


lemma Node_structure_simp:
  "Node_structure (Node c d v) =
     Node (map_option (map (map_prod id Node_structure)) c) d ()"
  by (simp add: Node_structure_def list.map_id0 id_def [symmetric])

lemma Node_remove_key_unchanged:
  fixes n :: "('k, 'v::len word) Node"
  shows "Node_get_value n key = INVALID \<Longrightarrow> snd (Node_remove_key n key) = n"
proof (induction key arbitrary: n rule: length_induct)
  case (1 key)
  obtain c d v where n: "n = Node c d v" by (cases n)
  show ?case
    using "1.prems" unfolding n
  proof (rule_tac key_cases [of d key])
    fix b k' assume h: "key = d @ b # k'"
      and g: "Node_get_value (Node c d v) key = INVALID"
    have IH: "Node_get_value ch k' = INVALID \<Longrightarrow> Node_remove_key ch k' = (x, ch') \<Longrightarrow> ch' = ch"
      for ch ch' :: "('k, 'v word) Node" and x
      using "1.IH" [rule_format, of k' ch] h by simp
    show "snd (Node_remove_key (Node c d v) key) = Node c d v"
      using g unfolding h rk_longer gv_longer
      by (auto simp: update_triv dest: IH split: option.splits prod.splits)
  qed (auto simp: rk_simps gv_simps)
qed

lemma Node_remove_key_structure:
  fixes n :: "('k, 'v::len word) Node"
  shows "Node_structure (snd (Node_remove_key n key)) = Node_structure n"
proof (induction key arbitrary: n rule: length_induct)
  case (1 key)
  obtain c d v where n: "n = Node c d v" by (cases n)
  show ?case
    unfolding n
  proof (rule key_cases [of d key])
    fix b k' assume h: "key = d @ b # k'"
    have IH: "Node_remove_key ch k' = (x, ch') \<Longrightarrow> Node_structure ch' = Node_structure ch"
      for ch ch' :: "('k, 'v word) Node" and x
      using "1.IH" [rule_format, of k' ch] h by simp
    show "Node_structure (snd (Node_remove_key (Node c d v) key)) = Node_structure (Node c d v)"
      unfolding h rk_longer
      by (auto simp: Node_structure_simp dest!: map_of_update_split dest: IH
          split: option.splits prod.splits)
  qed (auto simp: rk_simps Node_structure_simp)
qed

lemma Node_values_simp:
  "Node_values (Node c d v) =
     v # concat (map (\<lambda>p. Node_values (snd p)) (case c of None \<Rightarrow> [] | Some m \<Rightarrow> m))"
  by (cases c) simp_all

lemma Node_remove_key_values:
  fixes n :: "('k, 'v::len word) Node"
  assumes "Node_remove_key n key = (r, n')" and "r \<noteq> INVALID"
  shows "\<exists>i<length (Node_values n).
           Node_values n ! i = r \<and> Node_values n' = (Node_values n)[i := INVALID]"
  using assms
proof (induction key arbitrary: n n' rule: length_induct)
  case (1 key)
  obtain c d v where n: "n = Node c d v" by (cases n)
  show ?case
  proof (rule key_cases [of d key])
    assume h: "key = d"
    with "1.prems" n have "r = v" "n' = Node c d INVALID" by (simp_all add: rk_simps)
    then have "0 < length (Node_values n) \<and> Node_values n ! 0 = r \<and>
        Node_values n' = (Node_values n)[0 := INVALID]"
      by (simp add: n Node_values_simp)
    then show ?thesis by blast
  next
    fix b k' assume h: "key = d @ b # k'"
    from "1.prems" obtain m ch ch' where c: "c = Some m" and ch: "map_of m b = Some ch"
      and rk: "Node_remove_key ch k' = (r, ch')"
      and n': "n' = Node (Some (AList.update b ch' m)) d v"
      unfolding n h rk_longer by (auto split: option.splits prod.splits)
    have "length k' < length key" using h by simp
    from "1.IH" [rule_format, OF this rk "1.prems"(2)] obtain i where
      i: "i < length (Node_values ch)" "Node_values ch ! i = r"
        "Node_values ch' = (Node_values ch)[i := INVALID]" by blast
    from map_of_update_split [OF ch] obtain m1 m2 where
      m: "m = m1 @ (b, ch) # m2" and u: "AList.update b ch' m = m1 @ (b, ch') # m2" by blast
    let ?pre = "concat (map (\<lambda>p. Node_values (snd p)) m1)"
    let ?j = "Suc (length ?pre + i)"
    let ?post = "concat (map (\<lambda>p. Node_values (snd p)) m2)"
    have vn: "Node_values n = v # ?pre @ Node_values ch @ ?post"
      by (simp add: n c m)
    have vn': "Node_values n' = v # ?pre @ Node_values ch' @ ?post"
      unfolding n' u by simp
    have "?j < length (Node_values n) \<and> Node_values n ! ?j = r \<and>
        Node_values n' = (Node_values n)[?j := INVALID]"
      using i unfolding vn vn' by (simp add: nth_append list_update_append)
    then show ?thesis by blast
  next
    fix a d' assume "d = key @ a # d'"
    with "1.prems" n show ?thesis by (simp add: rk_simps)
  next
    fix p a d' b k' assume "d = p @ a # d'" "key = p @ b # k'" "a \<noteq> b"
    with "1.prems" n show ?thesis by (simp add: rk_simps)
  qed
qed



section \<open>Insertion\<close>



text \<open>
  What \<open>Node::Add\<close> returns when the edge label \<open>d\<close> of the node and the key agree on their
  first \<open>i\<close> symbols and differ at index \<open>i\<close>, below the length of both: a new branch node
  without a value, labelled with the common prefix, with exactly two children. Under
  \<open>key ! i\<close> a new childless node with the value, labelled with the key after its first
  \<open>i + 1\<close> symbols. Under \<open>d ! i\<close> the old node with its value and children, its label of
  the length that remains after \<open>i + 1\<close> symbols and filled with what is read from the
  released buffer.
\<close>

lemma Node_Add_divergence:
  assumes "i < length d" and "i < length key"
    and "take i d = take i key" and "d ! i \<noteq> key ! i" and "val \<noteq> INVALID"
  shows "Node_Add rd (Some (Node c d v)) key val =
         Inr (Node (Some [(d ! i, Node c (map (rd d) [Suc i..<length d]) v),
                          (key ! i, Node None (drop (Suc i) key) val)])
                (take i key) INVALID)"
proof -
  have d: "d = take i key @ d ! i # drop (Suc i) d"
    using assms(1,3) id_take_nth_drop [of i d] by simp
  have k: "key = take i key @ key ! i # drop (Suc i) key"
    using assms(2) by (rule id_take_nth_drop)
  have "length (take i key) = i" using assms(2) by simp
  with Node_Add_split [OF d k assms(4,5), of rd c v] show ?thesis by simp
qed

text \<open>
  Claim C5 (divergence split). The claim gives the old node the label \<open>d\<close> stripped of the
  common prefix and of the symbol \<open>d ! i\<close>. The code does not: when \<open>gopher\<close> is added after
  \<open>golf\<close>, \<open>Node::Add\<close> is called on the root node labelled \<open>olf\<close> with the key \<open>opher\<close>,
  and in the branch node it returns the old node is labelled with the one symbol read, at
  index 2, from the buffer \<open>cut_head\<close> has just released, where the claim has \<open>f\<close>.
\<close>

theorem Node_Add_divergence_label_is_read:
  "Node_Add rd (Some (Node None ''olf'' (3 :: 32 word))) ''opher'' 2 =
     Inr (Node (Some [(CHR ''l'', Node None [rd ''olf'' 2] 3),
                      (CHR ''p'', Node None ''her'' 2)])
            ''o'' INVALID)"
  by code_simp



section \<open>Lookup\<close>

text \<open>
  Claim C9 (\<open>find_key\<close>). In every trie and for every non-empty key, \<open>get_value\<close> returns
  a value and \<open>find_key\<close> returns true exactly when that value is not \<open>INVALID\<close>.
\<close>

theorem find_key_iff_get_value_valid:
  fixes t :: "('k, 'v::len) PatriciaTrie"
  assumes "key \<noteq> []"
  shows "\<exists>v. get_value t key = Inr v \<and> find_key t key = Inr (v \<noteq> INVALID)"
  using assms by (simp add: find_key_def get_value_def split: option.split)

theorem find_key_iff_get_value_valid_witness:
  "''go'' \<noteq> [] \<and>
   (\<exists>v. get_value [(CHR ''g'', Node None ''o'' (1 :: 32 word))] ''go'' = Inr v \<and>
        find_key [(CHR ''g'', Node None ''o'' (1 :: 32 word))] ''go'' = Inr (v \<noteq> INVALID))"
  using find_key_iff_get_value_valid [of "''go''" "[(CHR ''g'', Node None ''o'' (1 :: 32 word))]"]
  by simp

section \<open>Prefix enumeration\<close>

text \<open>
  If the reads of released buffers return what the buffers held, then in every trie that
  a sequence of calls \<open>ops\<close> produces from the empty trie, and for every non-empty query
  \<open>q\<close>, \<open>get_values\<close> appends the values of exactly those prefixes of \<open>q\<close> that are present
  after \<open>ops\<close>, the prefixes taken in the order of their lengths 1, 2, ..., \<open>length q\<close>.
\<close>

lemma get_values_prefix_enumeration_intact:
  fixes t :: "('k, 'v::len) PatriciaTrie"
  assumes "run intact empty_trie ops = Inr t" and "q \<noteq> []"
  shows "get_values t q vals =
         Inr (vals @ List.map_filter (stored ops)
                       (map (\<lambda>n. take n q) [1..<Suc (length q)]))"
proof -
  from assms(2) obtain a r where q: "q = a # r" by (cases q) auto
  have st: "stored ops = trie_lookup t" using assms(1) by (simp add: trie_lookup_stored)
  have pre: "map (\<lambda>n. take n q) [1..<Suc (length q)] = map ((#) a) (prefixes r)"
    unfolding q by (rule nonempty_prefixes_conv_take)
  show ?thesis
  proof (cases "map_of t a")
    case None
    then have "List.map_filter (trie_lookup t) (map ((#) a) (prefixes r)) = []"
      by (intro map_filter_all_None) (auto simp: trie_lookup_def)
    then show ?thesis
      unfolding pre st using None by (simp add: get_values_def q)
  next
    case (Some n)
    then have "trie_lookup t \<circ> (#) a = (\<lambda>k. terminal (Node_get_value n k))"
      by (auto simp: trie_lookup_def fun_eq_iff)
    then show ?thesis
      unfolding pre st map_filter_map using Some
      by (simp add: get_values_def q Node_get_values_prefixes)
  qed
qed

lemma get_values_no_root:
  "q \<noteq> [] \<Longrightarrow> map_of t (hd q) = None \<Longrightarrow> get_values t q vals = Inr vals"
  by (simp add: get_values_def)

text \<open>
  Claim C3 (prefix enumeration). The code does not enumerate every present prefix. After
  the calls \<open>add_key(go, 1)\<close>, \<open>add_key(gopher, 2)\<close>, \<open>add_key(golf, 3)\<close>, \<open>remove_key(golf)\<close>,
  \<open>add_key(gop, 4)\<close> the prefixes of \<open>gopher!\<close> that are present carry the values 1, 4, 2 in
  the order of their lengths. The last call cuts the label \<open>her\<close> of the node of \<open>gopher\<close>
  to the two symbols read, at the indices 1 and 2, from the buffer it has just released.
  \<open>get_values\<close> then appends 1, 4, 2 if those reads return \<open>er\<close>, and 1, 4 otherwise.
\<close>

theorem get_values_after_cut:
  "run rd empty_trie [AddKey ''go'' (1 :: 32 word), AddKey ''gopher'' 2, AddKey ''golf'' 3,
      RemoveKey ''golf'', AddKey ''gop'' 4]
     = Inr [(CHR ''g'',
             Node (Some [(CHR ''p'',
                          Node (Some [(CHR ''h'', Node None [rd ''her'' 1, rd ''her'' 2] 2)])
                            [] 4),
                         (CHR ''l'', Node None ''f'' INVALID)]) ''o'' 1)] \<and>
   List.map_filter
     (stored [AddKey ''go'' (1 :: 32 word), AddKey ''gopher'' 2, AddKey ''golf'' 3,
        RemoveKey ''golf'', AddKey ''gop'' 4])
     (map (\<lambda>n. take n ''gopher!'') [1..<Suc (length ''gopher!'')]) = [1, 4, 2] \<and>
   get_values
     [(CHR ''g'',
       Node (Some [(CHR ''p'',
                    Node (Some [(CHR ''h'', Node None [rd ''her'' 1, rd ''her'' 2] 2)]) [] 4),
                   (CHR ''l'', Node None ''f'' INVALID)]) ''o'' (1 :: 32 word))] ''gopher!'' []
     = Inr (if [rd ''her'' 1, rd ''her'' 2] = ''er'' then [1, 4, 2] else [1, 4])"
proof -
  have "run rd empty_trie [AddKey ''go'' (1 :: 32 word), AddKey ''gopher'' 2, AddKey ''golf'' 3,
      RemoveKey ''golf'', AddKey ''gop'' 4]
     = Inr [(CHR ''g'',
             Node (Some [(CHR ''p'',
                          Node (Some [(CHR ''h'', Node None [rd ''her'' 1, rd ''her'' 2] 2)])
                            [] 4),
                         (CHR ''l'', Node None ''f'' INVALID)]) ''o'' 1)]"
    by code_simp
  moreover have "List.map_filter
     (stored [AddKey ''go'' (1 :: 32 word), AddKey ''gopher'' 2, AddKey ''golf'' 3,
        RemoveKey ''golf'', AddKey ''gop'' 4])
     (map (\<lambda>n. take n ''gopher!'') [1..<Suc (length ''gopher!'')]) = [1, 4, 2]"
    by code_simp
  moreover have "get_values
     [(CHR ''g'',
       Node (Some [(CHR ''p'', Node (Some [(CHR ''h'', Node None [x, y] 2)]) [] 4),
                   (CHR ''l'', Node None ''f'' INVALID)]) ''o'' (1 :: 32 word))] ''gopher!'' []
     = Inr (if [x, y] = ''er'' then [1, 4, 2] else [1, 4])" for x y
    by (auto simp: get_values_def Node_get_values.simps l_of_def INVALID_def Let_def)
  ultimately show ?thesis by blast
qed

text \<open>
  Claim C10 (\<open>get_values\<close> only appends). In every trie and for every non-empty query,
  the vector after \<open>get_values\<close> is the vector before it followed by the values the call
  yields on an empty vector. \<open>get_values\<close> is a \<open>const\<close> member; the trie is an argument
  of the model only and is not returned.
\<close>

theorem get_values_only_appends:
  fixes t :: "('k, 'v::len) PatriciaTrie"
  assumes "q \<noteq> []"
  shows "\<exists>new. get_values t q [] = Inr new \<and> get_values t q vals = Inr (vals @ new)"
  using assms Node_get_values_append [of _ "tl q" vals]
  by (simp add: get_values_def split: option.split)

theorem get_values_only_appends_witness:
  "''gopher!'' \<noteq> [] \<and>
   (\<exists>new. get_values [(CHR ''g'', Node (Some [(CHR ''p'', Node None ''her'' 2)]) ''o'' (1 :: 32 word))]
            ''gopher!'' [] = Inr new \<and>
          get_values [(CHR ''g'', Node (Some [(CHR ''p'', Node None ''her'' 2)]) ''o'' 1)]
            ''gopher!'' [9, 8] = Inr ([9, 8] @ new))"
  using get_values_only_appends [of "''gopher!''"
      "[(CHR ''g'', Node (Some [(CHR ''p'', Node None ''her'' 2)]) ''o'' (1 :: 32 word))]" "[9, 8]"]
  by simp

section \<open>Removal\<close>

text \<open>
  If the reads of released buffers return what the buffers held, then in every trie that
  a sequence of calls \<open>ops\<close> produces from the empty trie, for every key present after
  \<open>ops\<close>, \<open>remove_key\<close> returns the stored value, and in the trie it leaves \<open>get_value\<close> of the
  key returns \<open>INVALID\<close> and \<open>find_key\<close> returns false, while every other key present after
  \<open>ops\<close> keeps its value and is found.
\<close>

lemma remove_key_deletes_only_that_key_intact:
  fixes t :: "('k, 'v::len) PatriciaTrie"
  assumes "run intact empty_trie ops = Inr t" and "stored ops key = Some val"
  shows "\<exists>t'. remove_key t key = Inr (val, t') \<and>
          get_value t' key = Inr INVALID \<and> find_key t' key = Inr False \<and>
          (\<forall>key' val'. key' \<noteq> key \<and> stored ops key' = Some val' \<longrightarrow>
             get_value t' key' = Inr val' \<and> find_key t' key' = Inr True)"
proof -
  have st: "trie_lookup t key = Some val" using assms by (simp add: trie_lookup_stored)
  then obtain a r n where key: "key = a # r" and n: "map_of t a = Some n"
    and v: "Node_get_value n r = val" "val \<noteq> INVALID"
    by (rule trie_lookup_SomeD)
  define t' where "t' = AList.update a (snd (Node_remove_key n r)) t"
  have rk: "remove_key t key = Inr (val, t')"
    using Node_remove_key_fst [of n r] v(1)
    by (auto simp: remove_key_def key n t'_def split: prod.split)
  have lk: "trie_lookup t' = (trie_lookup t)(key := None)"
    using rk by (rule trie_lookup_remove_key)
  have g: "get_value t' key = Inr INVALID"
    by (simp add: get_value_def key t'_def update_conv' Node_get_value_remove)
  then have f: "find_key t' key = Inr False"
    by (simp add: find_key_def key)
  have others: "get_value t' key' = Inr val' \<and> find_key t' key' = Inr True"
    if "key' \<noteq> key" "stored ops key' = Some val'" for key' val'
  proof -
    have "trie_lookup t' key' = Some val'"
      using that assms(1) by (simp add: lk trie_lookup_stored)
    then show ?thesis by (simp add: trie_lookup_Some_get_value)
  qed
  from rk g f others show ?thesis by blast
qed

text \<open>
  Claim C4 (deletion). The removed key is gone, but the code does not keep every other
  key retrievable. After \<open>add_key(golf, 3)\<close> and \<open>add_key(gopher, 2)\<close> both keys are
  present; the second call cut the label \<open>olf\<close> of the node of \<open>golf\<close> to the one symbol
  read, at index 2, from the buffer it had just released. \<open>remove_key(gopher)\<close> returns 2,
  and afterwards \<open>get_value(golf)\<close> returns 3 if that read returned \<open>f\<close>, and \<open>INVALID\<close>
  otherwise.
\<close>

theorem get_value_of_other_key_after_cut:
  "run rd empty_trie [AddKey ''golf'' (3 :: 32 word), AddKey ''gopher'' 2]
     = Inr [(CHR ''g'', Node (Some [(CHR ''l'', Node None [rd ''olf'' 2] 3),
                                    (CHR ''p'', Node None ''her'' 2)]) ''o'' INVALID)] \<and>
   stored [AddKey ''golf'' (3 :: 32 word), AddKey ''gopher'' 2] ''golf'' = Some 3 \<and>
   stored [AddKey ''golf'' (3 :: 32 word), AddKey ''gopher'' 2] ''gopher'' = Some 2 \<and>
   remove_key [(CHR ''g'', Node (Some [(CHR ''l'', Node None [rd ''olf'' 2] (3 :: 32 word)),
                                       (CHR ''p'', Node None ''her'' 2)]) ''o'' INVALID)]
       ''gopher''
     = Inr (2, [(CHR ''g'', Node (Some [(CHR ''l'', Node None [rd ''olf'' 2] 3),
                                        (CHR ''p'', Node None ''her'' INVALID)]) ''o'' INVALID)]) \<and>
   get_value [(CHR ''g'', Node (Some [(CHR ''l'', Node None [rd ''olf'' 2] (3 :: 32 word)),
                                      (CHR ''p'', Node None ''her'' INVALID)]) ''o'' INVALID)]
       ''golf''
     = Inr (if rd ''olf'' 2 = CHR ''f'' then 3 else INVALID)"
proof -
  have r: "run rd empty_trie [AddKey ''golf'' (3 :: 32 word), AddKey ''gopher'' 2]
     = Inr [(CHR ''g'', Node (Some [(CHR ''l'', Node None [rd ''olf'' 2] 3),
                                    (CHR ''p'', Node None ''her'' 2)]) ''o'' INVALID)]"
    by code_simp
  have s1: "stored [AddKey ''golf'' (3 :: 32 word), AddKey ''gopher'' 2] ''golf'' = Some 3"
    and s2: "stored [AddKey ''golf'' (3 :: 32 word), AddKey ''gopher'' 2] ''gopher'' = Some 2"
    by (simp_all add: stored_def)
  have rk: "remove_key [(CHR ''g'', Node (Some [(CHR ''l'', Node None [x] 3),
                                       (CHR ''p'', Node None ''her'' 2)]) ''o'' INVALID)]
       ''gopher''
     = Inr (2 :: 32 word, [(CHR ''g'', Node (Some [(CHR ''l'', Node None [x] 3),
                                        (CHR ''p'', Node None ''her'' INVALID)]) ''o'' INVALID)])"
    for x
    by (simp add: remove_key_def Node_remove_key.simps l_of_def)
  have g: "get_value [(CHR ''g'', Node (Some [(CHR ''l'', Node None [x] (3 :: 32 word)),
                                      (CHR ''p'', Node None ''her'' INVALID)]) ''o'' INVALID)]
       ''golf''
     = Inr (if x = CHR ''f'' then 3 else INVALID)" for x
    by (auto simp: get_value_def Node_get_value.simps l_of_def)
  show ?thesis by (intro conjI) (rule r s1 s2 rk g)+
qed

text \<open>
  Claim C7 (no edge merging on removal). In every trie, a call of \<open>remove_key\<close> that finds
  a root for the first symbol of the key and returns a value other than \<open>INVALID\<close> keeps the
  structure: every node stays where it is with its edge label and its child map. Among
  the values of all nodes exactly one entry changes, from the returned value to \<open>INVALID\<close>.
  It is the value of the node the key leads to: \<open>get_value\<close> of the key returned that value
  before and returns \<open>INVALID\<close> after, and \<open>get_value\<close> of every other key is unchanged. The
  witness removes \<open>ab\<close> where \<open>abc\<close> is stored too: the node of \<open>ab\<close> stays, without a value
  and with its single child.
\<close>

theorem remove_key_keeps_every_node:
  fixes t :: "('k, 'v::len) PatriciaTrie"
  assumes "key \<noteq> []" and "map_of t (hd key) = Some n"
    and "remove_key t key = Inr (r, t')" and "r \<noteq> INVALID"
  shows "trie_structure t' = trie_structure t \<and>
         (\<exists>i<length (trie_values t).
            trie_values t ! i = r \<and> trie_values t' = (trie_values t)[i := INVALID]) \<and>
         get_value t key = Inr r \<and> get_value t' key = Inr INVALID \<and>
         (\<forall>key'. key' \<noteq> [] \<and> key' \<noteq> key \<longrightarrow> get_value t' key' = get_value t key')"
proof -
  from assms(1) obtain a k where key: "key = a # k" by (cases key) auto
  obtain n' where rk: "Node_remove_key n k = (r, n')"
    and t': "t' = AList.update a n' t"
    using assms(2,3) by (auto simp: remove_key_def key split: prod.splits)
  have n'_eq: "n' = snd (Node_remove_key n k)" using rk by simp
  from map_of_update_split [of t a n] assms(2) obtain t1 t2 where
    t: "t = t1 @ (a, n) # t2" and u: "AList.update a n' t = t1 @ (a, n') # t2"
    by (auto simp: key)
  have s: "trie_structure t' = trie_structure t"
    using Node_remove_key_structure [of n k] rk
    unfolding t' u by (simp add: trie_structure_def t)
  from Node_remove_key_values [OF rk assms(4)] obtain i where
    i: "i < length (Node_values n)" "Node_values n ! i = r"
      "Node_values n' = (Node_values n)[i := INVALID]" by blast
  let ?j = "length (concat (map (\<lambda>p. Node_values (snd p)) t1)) + i"
  have "?j < length (trie_values t) \<and> trie_values t ! ?j = r \<and>
      trie_values t' = (trie_values t)[?j := INVALID]"
    using i unfolding t' u by (simp add: trie_values_def t nth_append list_update_append)
  then have v: "\<exists>i<length (trie_values t).
      trie_values t ! i = r \<and> trie_values t' = (trie_values t)[i := INVALID]" by blast
  have g: "get_value t key = Inr r"
    using assms(2) Node_remove_key_fst [of n k] rk by (simp add: get_value_def key)
  have g': "get_value t' key = Inr INVALID"
    by (simp add: get_value_def key t' update_conv' n'_eq Node_get_value_remove)
  have o: "get_value t' key' = get_value t key'" if "key' \<noteq> []" "key' \<noteq> key" for key'
  proof -
    from that(1) obtain b s where key': "key' = b # s" by (cases key') auto
    show ?thesis
    proof (cases "b = a")
      case True
      with that(2) have "s \<noteq> k" by (simp add: key key')
      with True assms(2) show ?thesis
        by (simp add: get_value_def key key' t' update_conv' n'_eq Node_get_value_remove)
    next
      case False
      then show ?thesis by (simp add: get_value_def key' t' update_conv')
    qed
  qed
  from s v g g' o show ?thesis by blast
qed

theorem remove_key_keeps_every_node_witness:
  "''ab'' \<noteq> [] \<and>
   map_of [(CHR ''a'', Node (Some [(CHR ''c'', Node None [] 2)]) ''b'' (1 :: 32 word))] (hd ''ab'')
     = Some (Node (Some [(CHR ''c'', Node None [] 2)]) ''b'' 1) \<and>
   remove_key [(CHR ''a'', Node (Some [(CHR ''c'', Node None [] 2)]) ''b'' (1 :: 32 word))] ''ab''
     = Inr (1, [(CHR ''a'', Node (Some [(CHR ''c'', Node None [] 2)]) ''b'' INVALID)]) \<and>
   (1 :: 32 word) \<noteq> INVALID \<and>
   trie_structure [(CHR ''a'', Node (Some [(CHR ''c'', Node None [] 2)]) ''b'' (INVALID :: 32 word))]
     = trie_structure [(CHR ''a'', Node (Some [(CHR ''c'', Node None [] 2)]) ''b'' (1 :: 32 word))] \<and>
   trie_values [(CHR ''a'', Node (Some [(CHR ''c'', Node None [] 2)]) ''b'' (INVALID :: 32 word))]
     = (trie_values [(CHR ''a'', Node (Some [(CHR ''c'', Node None [] 2)]) ''b'' (1 :: 32 word))])
         [0 := INVALID] \<and>
   get_value [(CHR ''a'', Node (Some [(CHR ''c'', Node None [] 2)]) ''b'' (INVALID :: 32 word))] ''ab''
     = Inr INVALID \<and>
   get_value [(CHR ''a'', Node (Some [(CHR ''c'', Node None [] 2)]) ''b'' (INVALID :: 32 word))] ''abc''
     = get_value [(CHR ''a'', Node (Some [(CHR ''c'', Node None [] 2)]) ''b'' (1 :: 32 word))] ''abc''"
proof -
  let ?n = "Node (Some [(CHR ''c'', Node None [] 2)]) ''b'' (1 :: 32 word)"
  let ?t = "[(CHR ''a'', ?n)]"
  let ?t' = "[(CHR ''a'', Node (Some [(CHR ''c'', Node None [] 2)]) ''b'' (INVALID :: 32 word))]"
  have k: "''ab'' \<noteq> []" by simp
  have m: "map_of ?t (hd ''ab'') = Some ?n" by simp
  have rk: "remove_key ?t ''ab'' = Inr (1, ?t')" by code_simp
  have v: "(1 :: 32 word) \<noteq> INVALID" by (simp add: INVALID_def)
  from remove_key_keeps_every_node [OF k m rk v]
  have "trie_structure ?t' = trie_structure ?t"
    and "get_value ?t' ''ab'' = Inr INVALID"
    and "\<forall>key'. key' \<noteq> [] \<and> key' \<noteq> ''ab'' \<longrightarrow> get_value ?t' key' = get_value ?t key'"
    by blast+
  moreover have "trie_values ?t' = (trie_values ?t)[0 := INVALID]"
    by (simp add: trie_values_def)
  ultimately show ?thesis using k m rk v by simp
qed

section \<open>Keys that are not present\<close>

text \<open>
  What \<open>get_value\<close> and \<open>remove_key\<close> do, in any trie, for a key that leads to no node with a
  value: the trie is unchanged, and the value returned is \<open>INVALID\<close> when there is a root
  for the first symbol of the key, but 0 (the conversion of \<open>false\<close>) when there is none.
\<close>

lemma absent_key_with_root:
  fixes t :: "('k, 'v::len) PatriciaTrie"
  assumes "key \<noteq> []" and "map_of t (hd key) = Some n"
    and "Node_get_value n (tl key) = INVALID"
  shows "get_value t key = Inr INVALID" and "remove_key t key = Inr (INVALID, t)"
proof -
  show "get_value t key = Inr INVALID" using assms by (simp add: get_value_def)
  have "Node_remove_key n (tl key) = (INVALID, n)"
    using assms(3) Node_remove_key_fst [of n "tl key"] Node_remove_key_unchanged [of n "tl key"]
    by (cases "Node_remove_key n (tl key)") simp
  with assms show "remove_key t key = Inr (INVALID, t)"
    by (simp add: remove_key_def update_triv)
qed

lemma absent_key_without_root:
  fixes t :: "('k, 'v::len) PatriciaTrie"
  assumes "key \<noteq> []" and "map_of t (hd key) = None"
  shows "get_value t key = Inr 0" and "remove_key t key = Inr (0, t)"
  using assms by (simp_all add: get_value_def remove_key_def)

text \<open>
  Claim C2 (non-existent key). The claim holds where a root exists for the first symbol
  (\<open>absent_key_with_root\<close>), but not where none exists: on the default-constructed trie with
  \<open>VTYPE = unsigned int\<close>, \<open>get_value\<close> and \<open>remove_key\<close> of the key \<open>a\<close> return 0, which is
  not \<open>INVALID\<close>, and \<open>find_key\<close> reports the key as found. The trie is unchanged.
\<close>

theorem lookup_without_root_returns_zero:
  "get_value (empty_trie :: (char, 32) PatriciaTrie) ''a'' = Inr 0 \<and>
   remove_key (empty_trie :: (char, 32) PatriciaTrie) ''a'' = Inr (0, empty_trie) \<and>
   find_key (empty_trie :: (char, 32) PatriciaTrie) ''a'' = Inr True \<and>
   (0 :: 32 word) \<noteq> INVALID"
  by (simp add: get_value_def remove_key_def find_key_def empty_trie_def INVALID_def)

text \<open>
  Claim C8 (idempotent removal). After the single call \<open>add_key(go, 1)\<close> the key \<open>a\<close> is
  not present; \<open>remove_key\<close> of it leaves the trie unchanged, as claimed, but returns 0
  instead of \<open>INVALID\<close>, as often as it is called.
\<close>

theorem remove_absent_key_returns_zero:
  "run rd empty_trie [AddKey ''go'' (1 :: 32 word)] = Inr [(CHR ''g'', Node None ''o'' 1)] \<and>
   stored [AddKey ''go'' (1 :: 32 word)] ''a'' = None \<and>
   remove_key [(CHR ''g'', Node None ''o'' (1 :: 32 word))] ''a''
     = Inr (0, [(CHR ''g'', Node None ''o'' 1)]) \<and>
   (0 :: 32 word) \<noteq> INVALID"
  by (simp add: add_key_def remove_key_def empty_trie_def INVALID_def stored_def
      Node_Add_None [unfolded INVALID_def])

section \<open>The round trip in the two-parameter header\<close>

text \<open>
  The empty trie is well formed, \<open>add_key\<close> and \<open>remove_key\<close> keep a trie well formed, and
  in a well-formed trie \<open>add_key\<close> fails no assertion and is followed by the round trip of
  claim C1.
\<close>

declare Node_get_value_old.simps [simp del] Node_Add_old.simps [simp del]
  Node_remove_key_old.simps [simp del]

lemma compare_loop_old_common:
  "i \<le> length d \<Longrightarrow> compare_loop_old d (d @ ys) (length d) i"
proof (induction "length d - i" arbitrary: i)
  case 0
  then show ?case by (subst compare_loop_old.simps) simp
next
  case (Suc k)
  then have "compare_loop_old d (d @ ys) (length d) (i + 1)" by (intro Suc.hyps) auto
  then show ?case using Suc.prems Suc.hyps(2)
    by (subst compare_loop_old.simps) (simp add: nth_append)
qed

lemma gvo_same:
  "d \<noteq> [] \<Longrightarrow> Node_get_value_old (Node_old d v c) d = Inr v"
  using compare_loop_old_common [of 1 d "[]"]
  by (subst Node_get_value_old.simps) (simp add: Suc_leI)

lemma gvo_longer:
  "d \<noteq> [] \<Longrightarrow> Node_get_value_old (Node_old d v c) (d @ b # k') =
     (case map_of c b of None \<Rightarrow> Inr INVALID | Some ch \<Rightarrow> Node_get_value_old ch (b # k'))"
  using compare_loop_old_common [of 1 d "b # k'"]
  by (subst Node_get_value_old.simps) (simp add: Suc_leI split: option.split)

lemma Node_Add_old_None:
  "key \<noteq> [] \<Longrightarrow> val \<noteq> INVALID \<Longrightarrow>
   Node_Add_old None key val = Inr (Node_old key val [])"
  by (subst Node_Add_old.simps) (simp add: new_Node_old_def)

lemma Node_Add_old_assert:
  "Node_Add_old (Some (Node_old d v c)) key val = Inr n' \<Longrightarrow>
   key \<noteq> [] \<and> val \<noteq> INVALID \<and> d \<noteq> [] \<and> hd d = hd key"
  by (subst (asm) Node_Add_old.simps) (auto split: if_splits)

lemma Node_Add_old_split:
  assumes "d = p @ a # d'" "key = p @ b # k'" "a \<noteq> b" "p \<noteq> []" "val \<noteq> INVALID"
  shows "Node_Add_old (Some (Node_old d v c)) key val =
         Inr (Node_old p INVALID [(a, Node_old (a # d') v c), (b, Node_old (b # k') val [])])"
proof -
  let ?nd = "Node_old d v c"
  have i: "Add_loop (d_old ?nd) key (min (length (d_old ?nd)) (length key)) 1 = length p"
    using assms by (simp add: Add_loop_common Suc_leI)
  show ?thesis
    apply (subst Node_Add_old.simps)
    unfolding option.case Let_def i using assms
    by (simp add: new_Node_old_def cut_head_old_def)
qed

lemma Node_Add_old_longer:
  assumes "key = d @ b # k'" "d \<noteq> []" "val \<noteq> INVALID"
  shows "Node_Add_old (Some (Node_old d v c)) key val =
         (case Node_Add_old (map_of c b) (b # k') val of
            Inl e \<Rightarrow> Inl e
          | Inr ch \<Rightarrow> Inr (Node_old d v (AList.update b ch c)))"
proof -
  let ?nd = "Node_old d v c"
  have i: "Add_loop (d_old ?nd) key (min (length (d_old ?nd)) (length key)) 1 = length d"
    using assms Add_loop_common [of 1 d "length d" "[]" "b # k'"] by (simp add: Suc_leI)
  show ?thesis
    apply (subst Node_Add_old.simps)
    unfolding option.case Let_def i using assms
    by (simp cong: sum.case_cong)
qed

lemma Node_Add_old_shorter:
  assumes "d = key @ a # d'" "key \<noteq> []" "val \<noteq> INVALID"
  shows "Node_Add_old (Some (Node_old d v c)) key val =
         Inr (Node_old key val [(a, Node_old (a # d') v c)])"
proof -
  let ?nd = "Node_old d v c"
  have i: "Add_loop (d_old ?nd) key (min (length (d_old ?nd)) (length key)) 1 = length key"
    using assms Add_loop_common [of 1 key "length key" "a # d'" "[]"] by (simp add: Suc_leI)
  show ?thesis
    apply (subst Node_Add_old.simps)
    unfolding option.case Let_def i using assms
    by (simp add: new_Node_old_def cut_head_old_def)
qed

lemma Node_Add_old_same:
  assumes "d \<noteq> []" "val \<noteq> INVALID"
  shows "Node_Add_old (Some (Node_old d v c)) d val = Inr (Node_old d val c)"
proof -
  let ?nd = "Node_old d v c"
  have i: "Add_loop (d_old ?nd) d (min (length (d_old ?nd)) (length d)) 1 = length d"
    using assms Add_loop_common [of 1 d "length d" "[]" "[]"] by (simp add: Suc_leI)
  show ?thesis
    apply (subst Node_Add_old.simps)
    unfolding option.case Let_def i using assms
    by simp
qed

lemma Node_Add_old_Inr_nonempty:
  "Node_Add_old n key val = Inr n' \<Longrightarrow> key \<noteq> [] \<and> val \<noteq> INVALID"
  by (subst (asm) Node_Add_old.simps) (auto split: if_splits)

lemma split_prefix_nonempty:
  assumes "d = p @ a # d'" "key = p @ b # k'" "a \<noteq> b" "hd d = hd key"
  shows "p \<noteq> []"
  using assms by (cases p) auto

lemma Node_get_value_old_Add:
  fixes n :: "('k, 'v::len word) Node_old option"
  shows "Node_Add_old n key val = Inr n' \<Longrightarrow> Node_get_value_old n' key = Inr val"
proof (induction key arbitrary: n n' rule: length_induct)
  case (1 key)
  from "1.prems" have kv: "key \<noteq> []" "val \<noteq> INVALID"
    by (auto dest: Node_Add_old_Inr_nonempty)
  show ?case
  proof (cases n)
    case None
    with "1.prems" kv have "n' = Node_old key val []" by (simp add: Node_Add_old_None)
    with kv show ?thesis by (simp add: gvo_same)
  next
    case (Some nd)
    obtain d v c where nd: "nd = Node_old d v c" by (cases nd)
    from "1.prems" have dk: "d \<noteq> []" "hd d = hd key"
      unfolding Some nd by (auto dest: Node_Add_old_assert)
    show ?thesis
    proof (rule key_cases [of d key])
      fix p a d' b k' assume h: "d = p @ a # d'" "key = p @ b # k'" "a \<noteq> b"
      have p: "p \<noteq> []" using h dk(2) by (rule split_prefix_nonempty)
      from "1.prems" have
        "n' = Node_old p INVALID [(a, Node_old (a # d') v c), (b, Node_old (b # k') val [])]"
        unfolding Some nd Node_Add_old_split [OF h p kv(2)] by simp
      then show ?thesis
        using h(3) p by (simp add: h(2) gvo_longer gvo_same)
    next
      fix b k' assume h: "key = d @ b # k'"
      from "1.prems" obtain ch where
        ch: "Node_Add_old (map_of c b) (b # k') val = Inr ch"
        and n': "n' = Node_old d v (AList.update b ch c)"
        unfolding Some nd Node_Add_old_longer [OF h dk(1) kv(2)]
        by (auto split: sum.splits)
      have "length (b # k') < length key" using h dk(1) by (cases d) simp_all
      from "1.IH" [rule_format, OF this ch] have "Node_get_value_old ch (b # k') = Inr val" .
      then show ?thesis
        using dk(1) by (simp add: n' h gvo_longer update_conv')
    next
      fix a d' assume h: "d = key @ a # d'"
      from "1.prems" have "n' = Node_old key val [(a, Node_old (a # d') v c)]"
        unfolding Some nd Node_Add_old_shorter [OF h kv] by simp
      then show ?thesis using kv(1) by (simp add: gvo_same)
    next
      assume h: "key = d"
      from "1.prems" have "n' = Node_old d val c"
        unfolding Some nd h Node_Add_old_same [OF dk(1) kv(2)] by simp
      then show ?thesis using dk(1) by (simp add: h gvo_same)
    qed
  qed
qed

lemma wf_Node_old_update:
  assumes "\<forall>p \<in> set c. wf_Node_old (fst p) (snd p)" and "wf_Node_old b ch"
  shows "\<forall>p \<in> set (AList.update b ch c). wf_Node_old (fst p) (snd p)"
  using assms by (induction c) auto

lemma wf_Node_old_map_of:
  assumes "\<forall>p \<in> set c. wf_Node_old (fst p) (snd p)" and "map_of c b = Some ch"
  shows "wf_Node_old b ch"
proof -
  from assms(2) have "(b, ch) \<in> set c" by (rule map_of_SomeD)
  with assms(1) show ?thesis by fastforce
qed

lemma Node_Add_old_succeeds:
  fixes n :: "('k, 'v::len word) Node_old option"
  assumes "key \<noteq> []" and "val \<noteq> INVALID"
    and "\<And>nd. n = Some nd \<Longrightarrow> wf_Node_old (hd key) nd"
  shows "\<exists>n'. Node_Add_old n key val = Inr n' \<and> wf_Node_old (hd key) n'"
  using assms
proof (induction key arbitrary: n rule: length_induct)
  case (1 key)
  note kv = "1.prems"(1,2)
  show ?case
  proof (cases n)
    case None
    with kv show ?thesis by (simp add: Node_Add_old_None)
  next
    case (Some nd)
    obtain d v c where nd: "nd = Node_old d v c" by (cases nd)
    from "1.prems"(3) [OF Some] have dk: "d \<noteq> []" "hd d = hd key"
      and wc: "\<forall>p \<in> set c. wf_Node_old (fst p) (snd p)"
      by (simp_all add: nd)
    show ?thesis
    proof (rule key_cases [of d key])
      fix p a d' b k' assume h: "d = p @ a # d'" "key = p @ b # k'" "a \<noteq> b"
      have p: "p \<noteq> []" using h dk(2) by (rule split_prefix_nonempty)
      show ?thesis
        unfolding Some nd Node_Add_old_split [OF h p kv(2)]
        using p wc by (simp add: h(2))
    next
      fix b k' assume h: "key = d @ b # k'"
      have len: "length (b # k') < length key" using h dk(1) by (cases d) simp_all
      have "\<And>ch. map_of c b = Some ch \<Longrightarrow> wf_Node_old (hd (b # k')) ch"
        using wf_Node_old_map_of [OF wc] by simp
      from "1.IH" [rule_format, OF len _ kv(2) this] obtain ch where
        ch: "Node_Add_old (map_of c b) (b # k') val = Inr ch" "wf_Node_old b ch" by auto
      show ?thesis
        unfolding Some nd Node_Add_old_longer [OF h dk(1) kv(2)]
        using ch dk wf_Node_old_update [OF wc ch(2)] by (simp add: h)
    next
      fix a d' assume h: "d = key @ a # d'"
      show ?thesis
        unfolding Some nd Node_Add_old_shorter [OF h kv]
        using kv(1) wc by simp
    next
      assume h: "key = d"
      show ?thesis
        unfolding Some nd h Node_Add_old_same [OF dk(1) kv(2)]
        using dk wc by (simp add: h)
    qed
  qed
qed

lemma add_key_old_round_trip:
  fixes t :: "('k, 'v::len) PatriciaTrie_old"
  assumes "wf_old t" and "key \<noteq> []" and "val \<noteq> INVALID"
  shows "\<exists>t'. add_key_old t key val = Inr t' \<and> wf_old t' \<and>
           get_value_old t' key = Inr val \<and> find_key_old t' key = Inr True"
proof -
  have "\<And>nd. map_of t (hd key) = Some nd \<Longrightarrow> wf_Node_old (hd key) nd"
    using assms(1) wf_Node_old_map_of [of t "hd key"] by (simp add: wf_old_def)
  from Node_Add_old_succeeds [OF assms(2,3) this] obtain n' where
    n': "Node_Add_old (map_of t (hd key)) key val = Inr n'" "wf_Node_old (hd key) n'" by blast
  have g: "Node_get_value_old n' key = Inr val" using n'(1) by (rule Node_get_value_old_Add)
  have w: "wf_old (AList.update (hd key) n' t)"
    using wf_Node_old_update [of t "hd key" n'] assms(1) n'(2) by (simp add: wf_old_def)
  show ?thesis
    using assms(2,3) n'(1) g w
    by (simp add: add_key_old_def get_value_old_def find_key_old_def update_conv')
qed

lemma Node_remove_key_old_wf:
  fixes n :: "('k, 'v::len word) Node_old"
  shows "Node_remove_key_old n key = Inr (r, n') \<Longrightarrow> wf_Node_old a n \<Longrightarrow> wf_Node_old a n'"
proof (induction n key arbitrary: r n' a rule: Node_remove_key_old.induct)
  case (1 node key)
  obtain d v c where node: "node = Node_old d v c" by (cases node)
  from "1.prems"(2) have wc: "\<forall>p \<in> set c. wf_Node_old (fst p) (snd p)"
    and da: "d \<noteq> []" "hd d = a" by (simp_all add: node)
  show ?case
  proof (cases "n' = node \<or> n' = Node_old d INVALID c")
    case True
    with "1.prems"(2) show ?thesis by (auto simp: node)
  next
    case False
    with "1.prems"(1) obtain ch ch' where
      c1: "0 < length key" "d_old node \<noteq> [] \<and> hd (d_old node) = hd key"
        "\<not> length key < length (d_old node)"
        "compare_loop_old (d_old node) key (length (d_old node)) 1"
        "length key \<noteq> length (d_old node)"
      and ch: "map_of (c_old node) (key ! length (d_old node)) = Some ch"
      and rk: "Node_remove_key_old ch (drop (length (d_old node)) key) = Inr (r, ch')"
      and n': "n' = Node_old d v (AList.update (key ! length d) ch' c)"
      by (subst (asm) Node_remove_key_old.simps)
         (auto simp: node split: if_splits option.splits sum.splits prod.splits)
    have "wf_Node_old (key ! length d) ch"
      using wf_Node_old_map_of [OF wc] ch by (simp add: node)
    from "1.IH" [OF _ _ _ _ _ ch rk this] c1 have "wf_Node_old (key ! length d) ch'"
      by simp
    from wf_Node_old_update [OF wc this] da show ?thesis by (simp add: n')
  qed
qed

lemma wf_old_empty: "wf_old []"
  by (simp add: wf_old_def)

lemma remove_key_old_wf:
  fixes t :: "('k, 'v::len) PatriciaTrie_old"
  assumes "remove_key_old t key = Inr (r, t')" and "wf_old t"
  shows "wf_old t'"
proof (cases "map_of t (hd key)")
  case None
  with assms show ?thesis by (simp add: remove_key_old_def split: if_splits)
next
  case (Some n)
  with assms(1) obtain n' where rk: "Node_remove_key_old n key = Inr (r, n')"
    and t': "t' = AList.update (hd key) n' t"
    by (auto simp: remove_key_old_def split: if_splits sum.splits)
  have "wf_Node_old (hd key) n"
    using assms(2) wf_Node_old_map_of [of t "hd key" n] Some by (simp add: wf_old_def)
  from Node_remove_key_old_wf [OF rk this] assms(2) show ?thesis
    using wf_Node_old_update [of t "hd key" n'] by (simp add: t' wf_old_def)
qed

end
